theory Spec2Isabelle
  imports Main "HOL-Library.Word"
begin

unbundle bit_operations_syntax

section \<open>Machine types and flash geometry\<close>

text \<open>
  The eZ80 target of \<^verbatim>\<open>main.c\<close> has 8-bit bytes, 24-bit addresses and
  \<^verbatim>\<open>uint24_t\<close> counters, and a 32-bit checksum.
\<close>

type_synonym byte = "8 word"
type_synonym uint24 = "24 word"
type_synonym uint32 = "32 word"

text \<open>
  The constants \<^verbatim>\<open>FLASHSTART\<close>, \<^verbatim>\<open>BUFFER1\<close>, \<^verbatim>\<open>PAGESIZE\<close>,
  \<^verbatim>\<open>FLASHPAGES\<close> and \<^verbatim>\<open>FLASHSIZE\<close> come from \<^verbatim>\<open>flash.h\<close>, which
  is not part of the sources at hand. Every function below takes them as a parameter.
\<close>

record layout =
  FLASHSTART :: uint24
  BUFFER1 :: uint24
  PAGESIZE :: uint24
  FLASHPAGES :: uint24
  FLASHSIZE :: uint24

section \<open>Checksum engine\<close>

text \<open>
  Modelled from the spec: the routines \<^verbatim>\<open>crc32_initialize\<close>, \<^verbatim>\<open>crc32\<close>
  and \<^verbatim>\<open>crc32_finalize\<close> are declared in \<^verbatim>\<open>crc32.h\<close> and implemented
  outside the sources at hand. The spec asks for the reflected 32-bit checksum with seed
  \<^verbatim>\<open>0xFFFFFFFF\<close>, polynomial \<^verbatim>\<open>0xEDB88320\<close> and a final XOR with
  \<^verbatim>\<open>0xFFFFFFFF\<close>, driven by a lookup table of 256 entries.
\<close>

definition crc32_poly :: uint32 where
  "crc32_poly = 0xEDB88320"

definition crc32_shift :: "uint32 \<Rightarrow> uint32" where
  "crc32_shift c = (if c AND 1 \<noteq> 0 then drop_bit 1 c XOR crc32_poly else drop_bit 1 c)"

definition crc32_table_entry :: "uint32 \<Rightarrow> uint32" where
  "crc32_table_entry i = (crc32_shift ^^ 8) i"

definition crc32_table :: "uint32 list" where
  "crc32_table = map (\<lambda>i. crc32_table_entry (of_nat i)) [0..<256]"

definition crc32_seed :: uint32 where
  "crc32_seed = 0xFFFFFFFF"

definition crc32_step :: "uint32 \<Rightarrow> byte \<Rightarrow> uint32" where
  "crc32_step c b = crc32_table ! unat ((c XOR ucast b) AND 0xFF) XOR drop_bit 8 c"

definition crc32_bytes :: "uint32 \<Rightarrow> byte list \<Rightarrow> uint32" where
  "crc32_bytes c bs = foldl crc32_step c bs"

definition crc32_final :: "uint32 \<Rightarrow> uint32" where
  "crc32_final c = c XOR 0xFFFFFFFF"

definition crc32_of :: "byte list \<Rightarrow> uint32" where
  "crc32_of bs = crc32_final (crc32_bytes crc32_seed bs)"

section \<open>Entry signature\<close>

definition mos_magicnumbers :: "byte list" where
  "mos_magicnumbers = [0xF3, 0xED, 0x7D, 0x5B, 0xC3]"

definition MOS_MAGICLENGTH :: nat where
  "MOS_MAGICLENGTH = 5"

text \<open>
  \<^verbatim>\<open>containsMosHeader\<close>: \<^verbatim>\<open>match\<close> starts true and the loop over
  \<^verbatim>\<open>n = 0 .. MOS_MAGICLENGTH - 1\<close> clears it at every index where the table and
  \<^verbatim>\<open>filestart[n]\<close> differ. The memory is a function from addresses to bytes and
  \<^verbatim>\<open>filestart\<close> an address in it.
\<close>

definition containsMosHeader :: "(uint24 \<Rightarrow> byte) \<Rightarrow> uint24 \<Rightarrow> bool" where
  "containsMosHeader m filestart =
     fold (\<lambda>n match. if mos_magicnumbers ! n \<noteq> m (filestart + of_nat n) then False else match)
       [0..<MOS_MAGICLENGTH] True"

section \<open>Program state, environment and observable events\<close>

text \<open>
  The flash controller registers written by \<^verbatim>\<open>update_mos\<close>.
\<close>

datatype reg = FLASH_PROT | FLASH_FDIV | FLASH_PAGE | FLASH_PGCTL

text \<open>
  One constructor per \<^verbatim>\<open>printf\<close> call of \<^verbatim>\<open>main.c\<close>, with the
  arguments that the format string prints (the file name is always \<^verbatim>\<open>MOS.bin\<close>).
\<close>

datatype message =
    MsgVersion
  | MsgFlashPrompt
  | MsgUserAbort
  | MsgNewlines
  | MsgProgramming
  | MsgRetry int
  | MsgErasing
  | MsgNewline
  | MsgWriting uint24 uint24
  | MsgCheckingCRC
  | MsgOK
  | MsgERROR
  | MsgErrorOpening
  | MsgNoStartupCode
  | MsgTooLarge
  | MsgMosCRC uint32
  | MsgCalculating
  | MsgReading
  | MsgDot
  | MsgReadError
  | MsgDone
  | MsgUpdateVDP
  | MsgOkToReset

text \<open>
  What the program does to the outside world, in order: console output, the interrupt
  mask, the flash key register, the flash controller registers, the page copies into
  flash and the checksum passes over a memory range.
\<close>

datatype event =
    Printf message
  | Putch byte
  | Di
  | EnableFlashKey
  | LockFlashKey
  | RegWrite reg byte
  | FastMemcpy uint24 uint24 uint24
  | Crc32 uint24 uint24

text \<open>
  The globals \<^verbatim>\<open>moscrc\<close> and \<^verbatim>\<open>filesize\<close>, the RAM, the accumulator of
  the checksum module, the interrupt mask, the lock of the flash key register and the
  events so far.
\<close>

record state =
  mem :: "uint24 \<Rightarrow> byte"
  moscrc :: uint32
  filesize :: uint24
  crc_acc :: uint32
  interrupts_enabled :: bool
  key_locked :: bool
  trace :: "event list"

text \<open>
  What the program meets: the file \<^verbatim>\<open>MOS.bin\<close> (\<open>None\<close> when it cannot be
  opened), the keys the user will press, the values that successive reads of
  \<^verbatim>\<open>FLASH_PGCTL\<close> return while a page is being erased (per attempt, page and
  read), and the bytes that the flash holds when it is read back for verification
  (per attempt and address).
\<close>

record env =
  mos_file :: "byte list option"
  keys :: "byte list"
  pgctl :: "int \<Rightarrow> uint24 \<Rightarrow> nat \<Rightarrow> byte"
  flash_read :: "int \<Rightarrow> uint24 \<Rightarrow> byte"

text \<open>
  The primitives. \<^verbatim>\<open>printf\<close> and \<^verbatim>\<open>putch\<close> add their output to the events;
  their waits for the UART are taken to end. \<^verbatim>\<open>di\<close>,
  \<^verbatim>\<open>enableFlashKeyRegister\<close>, \<^verbatim>\<open>lockFlashKeyRegister\<close> and
  \<^verbatim>\<open>fastmemcpy\<close> are implemented outside \<^verbatim>\<open>main.c\<close>: each call is an
  event, \<^verbatim>\<open>di\<close> disables interrupts, and the two key register functions unlock and
  lock the key register. The lock that the hardware takes back by itself after a
  protected write is left out, so that in this model only \<^verbatim>\<open>lockFlashKeyRegister\<close>
  locks. A write to a flash controller register is an event; the reads of
  \<^verbatim>\<open>FLASH_PGCTL\<close> are answered by the environment and not recorded.
\<close>

definition emit :: "event \<Rightarrow> state \<Rightarrow> state" where
  "emit ev s = s\<lparr>trace := trace s @ [ev]\<rparr>"

definition printf :: "message \<Rightarrow> state \<Rightarrow> state" where
  "printf m s = emit (Printf m) s"

definition putch :: "byte \<Rightarrow> state \<Rightarrow> state" where
  "putch c s = emit (Putch c) s"

definition di :: "state \<Rightarrow> state" where
  "di s = emit Di (s\<lparr>interrupts_enabled := False\<rparr>)"

definition enableFlashKeyRegister :: "state \<Rightarrow> state" where
  "enableFlashKeyRegister s = emit EnableFlashKey (s\<lparr>key_locked := False\<rparr>)"

definition lockFlashKeyRegister :: "state \<Rightarrow> state" where
  "lockFlashKeyRegister s = emit LockFlashKey (s\<lparr>key_locked := True\<rparr>)"

definition reg_write :: "reg \<Rightarrow> byte \<Rightarrow> state \<Rightarrow> state" where
  "reg_write r v s = emit (RegWrite r v) s"

definition fastmemcpy :: "uint24 \<Rightarrow> uint24 \<Rightarrow> uint24 \<Rightarrow> state \<Rightarrow> state" where
  "fastmemcpy addressto addressfrom n s = emit (FastMemcpy addressto addressfrom n) s"

text \<open>
  Modelled from the spec: the three entry points of the checksum module, on the
  accumulator of the state. \<^verbatim>\<open>crc32\<close> reads \<open>len\<close> bytes from \<open>ptr\<close> on
  through \<open>rd\<close>, which is the RAM for the loaded image and the read-back of the device
  for the flash.
\<close>

definition crc32_initialize :: "state \<Rightarrow> state" where
  "crc32_initialize s = s\<lparr>crc_acc := crc32_seed\<rparr>"

definition crc32 :: "(uint24 \<Rightarrow> byte) \<Rightarrow> uint24 \<Rightarrow> uint24 \<Rightarrow> state \<Rightarrow> state" where
  "crc32 rd ptr len s =
     emit (Crc32 ptr len)
       (s\<lparr>crc_acc := crc32_bytes (crc_acc s) (map (\<lambda>i. rd (ptr + of_nat i)) [0..<unat len])\<rparr>)"

definition crc32_finalize :: "state \<Rightarrow> uint32" where
  "crc32_finalize s = crc32_final (crc_acc s)"

section \<open>The functions of main.c\<close>

subsection \<open>getResponse\<close>

definition tolower :: "byte \<Rightarrow> byte" where
  "tolower c = (if 0x41 \<le> c \<and> c \<le> 0x5A then c + 0x20 else c)"

text \<open>
  The loop of \<^verbatim>\<open>getResponse\<close> takes keys until one is \<^verbatim>\<open>y\<close> or
  \<^verbatim>\<open>n\<close> in either case. When the keys run out, \<^verbatim>\<open>getch\<close> waits for ever:
  the result is \<open>None\<close>.
\<close>

fun getResponse_loop :: "byte list \<Rightarrow> byte option" where
  "getResponse_loop [] = None"
| "getResponse_loop (k # ks) =
     (let response = tolower k
      in if response \<noteq> 0x79 \<and> response \<noteq> 0x6E then getResponse_loop ks else Some response)"

definition getResponse :: "env \<Rightarrow> state \<Rightarrow> state \<times> bool option" where
  "getResponse e s =
     (let s1 = printf MsgFlashPrompt s
      in case getResponse_loop (keys e) of
           None \<Rightarrow> (s1, None)
         | Some response \<Rightarrow>
             (let s2 = (if response = 0x6E then printf MsgUserAbort s1 else printf MsgNewlines s1)
              in (s2, Some (response = 0x79))))"

subsection \<open>update_mos\<close>

text \<open>
  The wait for the end of a page erase, \<^verbatim>\<open>do value = FLASH_PGCTL; while(value & 0x02);\<close>.
  \<open>rd i\<close> is the value of the \<open>i\<close>-th read; the result is the number of reads made, and
  \<open>None\<close> when the bit never clears.
\<close>

partial_function (option) erase_poll :: "(nat \<Rightarrow> byte) \<Rightarrow> nat \<Rightarrow> nat option" where
  "erase_poll rd i = (if rd i AND 0x02 \<noteq> 0 then erase_poll rd (Suc i) else Some (Suc i))"

declare erase_poll.simps [code]

lemma uint24_counter_step:
  fixes counter bound :: uint24
  assumes "counter < bound"
  shows "unat (counter + 1) = Suc (unat counter)"
proof -
  have "unat counter < unat bound"
    using assms by (simp add: word_less_nat_alt)
  moreover have "unat bound < 2 ^ 24"
    using unsigned_less [of bound] by simp
  ultimately have "unat counter + unat (1 :: uint24) < 2 ^ LENGTH(24)"
    by simp
  then have "unat (counter + 1) = unat counter + unat (1 :: uint24)"
    by (simp only: unat_add_lem)
  then show ?thesis
    by simp
qed

lemma uint24_counter_measure:
  fixes counter bound :: uint24
  assumes "counter < bound"
  shows "unat bound - unat (counter + 1) < unat bound - unat counter"
  using assms uint24_counter_step [OF assms] by (simp add: word_less_nat_alt)

text \<open>
  The erase loop over \<^verbatim>\<open>counter = 0 .. FLASHPAGES - 1\<close>. A page whose erase never
  completes stops the program there.
\<close>

function erase_pages :: "layout \<Rightarrow> (uint24 \<Rightarrow> nat \<Rightarrow> byte) \<Rightarrow> uint24 \<Rightarrow> state \<Rightarrow> state \<times> unit option" where
  "erase_pages lay rd counter s =
     (if counter < FLASHPAGES lay then
        (let s1 = reg_write FLASH_PAGE (ucast counter) s;
             s2 = reg_write FLASH_PGCTL 0x02 s1
         in case erase_poll (rd counter) 0 of
              None \<Rightarrow> (s2, None)
            | Some n \<Rightarrow> erase_pages lay rd (counter + 1) s2)
      else (s, Some ()))"
  by pat_completeness auto
termination
  by (relation "measure (\<lambda>(lay, rd, counter, s). unat (FLASHPAGES lay) - unat counter)")
     (auto simp: uint24_counter_measure)

text \<open>
  The number of pages to write and the length of the last one.
\<close>

definition determine_pages :: "layout \<Rightarrow> uint24 \<Rightarrow> uint24 \<times> uint24" where
  "determine_pages lay fs =
     (let pagemax = fs div PAGESIZE lay
      in if fs mod PAGESIZE lay \<noteq> 0 then (pagemax + 1, fs mod PAGESIZE lay)
         else (pagemax, PAGESIZE lay))"

text \<open>
  The write loop over \<^verbatim>\<open>counter = 0 .. pagemax - 1\<close>.
\<close>

function write_pages ::
  "layout \<Rightarrow> uint24 \<Rightarrow> uint24 \<Rightarrow> uint24 \<Rightarrow> uint24 \<Rightarrow> uint24 \<Rightarrow> state \<Rightarrow> state" where
  "write_pages lay pagemax lastpagebytes counter addressto addressfrom s =
     (if counter < pagemax then
        (let s1 = printf (MsgWriting (counter + 1) pagemax) s;
             s2 = (if counter = pagemax - 1
                   then fastmemcpy addressto addressfrom lastpagebytes s1
                   else fastmemcpy addressto addressfrom (PAGESIZE lay) s1)
         in write_pages lay pagemax lastpagebytes (counter + 1)
              (addressto + PAGESIZE lay) (addressfrom + PAGESIZE lay) s2)
      else s)"
  by pat_completeness auto
termination
  by (relation "measure (\<lambda>(lay, pagemax, lastpagebytes, counter, addressto, addressfrom, s).
                   unat pagemax - unat counter)")
     (auto simp: uint24_counter_measure)

text \<open>
  The body of the \<^verbatim>\<open>while\<close> loop of \<^verbatim>\<open>update_mos\<close>: one attempt. The
  result is the value of \<^verbatim>\<open>success\<close> after it, or \<open>None\<close> when an erase
  stalls. \<^verbatim>\<open>attempt\<close> is a C \<^verbatim>\<open>int\<close> that only takes the values 0 to 3.
\<close>

definition update_attempt :: "layout \<Rightarrow> env \<Rightarrow> int \<Rightarrow> state \<Rightarrow> state \<times> bool option" where
  "update_attempt lay e attempt s =
     (let addressto = FLASHSTART lay;
          addressfrom = BUFFER1 lay;
          s1 = (if attempt > 0 then printf (MsgRetry attempt) s else s);
          s2 = printf MsgErasing s1;
          s3 = enableFlashKeyRegister s2;
          s4 = reg_write FLASH_PROT 0 s3;
          s5 = enableFlashKeyRegister s4;
          s6 = reg_write FLASH_FDIV 0x5F s5
      in case erase_pages lay (pgctl e attempt) 0 s6 of
           (s7, None) \<Rightarrow> (s7, None)
         | (s7, Some u) \<Rightarrow>
             (let s8 = printf MsgNewline s7;
                  (pagemax, lastpagebytes) = determine_pages lay (filesize s8);
                  s9 = write_pages lay pagemax lastpagebytes 0 addressto addressfrom s8;
                  s10 = lockFlashKeyRegister s9;
                  s11 = printf MsgCheckingCRC s10;
                  s12 = crc32_initialize s11;
                  s13 = crc32 (flash_read e attempt) (FLASHSTART lay) (filesize s12) s12;
                  crcresult = crc32_finalize s13
              in if crcresult = moscrc s13 then (printf MsgOK s13, Some True)
                 else (printf MsgERROR s13, Some False)))"

function update_loop :: "layout \<Rightarrow> env \<Rightarrow> bool \<Rightarrow> int \<Rightarrow> state \<Rightarrow> state \<times> bool option" where
  "update_loop lay e success attempt s =
     (if \<not> success \<and> attempt < 3 then
        (case update_attempt lay e attempt s of
           (s', None) \<Rightarrow> (s', None)
         | (s', Some success') \<Rightarrow> update_loop lay e success' (attempt + 1) s')
      else (s, Some success))"
  by pat_completeness auto
termination
  by (relation "measure (\<lambda>(lay, e, success, attempt, s). nat (3 - attempt))") auto

definition update_mos :: "layout \<Rightarrow> env \<Rightarrow> state \<Rightarrow> state \<times> bool option" where
  "update_mos lay e s =
     (let s1 = printf MsgProgramming s;
          s2 = di s1
      in case update_loop lay e False 0 s2 of
           (s3, None) \<Rightarrow> (s3, None)
         | (s3, Some success) \<Rightarrow> (printf MsgNewline s3, Some success))"

subsection \<open>The checks and the loading of the image\<close>

definition filesExist :: "env \<Rightarrow> state \<Rightarrow> state \<times> bool" where
  "filesExist e s =
     (case mos_file e of
        None \<Rightarrow> (printf MsgErrorOpening s, False)
      | Some bs \<Rightarrow> (s, True))"

definition validFirmware :: "layout \<Rightarrow> state \<Rightarrow> state \<times> bool" where
  "validFirmware lay s =
     (let (s1, v1) = (if \<not> containsMosHeader (mem s) (BUFFER1 lay)
                      then (printf MsgNoStartupCode s, False) else (s, True));
          (s2, v2) = (if filesize s1 > FLASHSIZE lay
                      then (printf MsgTooLarge s1, False) else (s1, v1))
      in (s2, v2))"

definition showCRC32 :: "state \<Rightarrow> state" where
  "showCRC32 s = printf MsgNewline (printf (MsgMosCRC (moscrc s)) s)"

definition calculateCRC32 :: "layout \<Rightarrow> state \<Rightarrow> state" where
  "calculateCRC32 lay s =
     (let s1 = s\<lparr>moscrc := 0\<rparr>;
          s2 = printf MsgCalculating s1;
          s3 = crc32_initialize s2;
          s4 = crc32 (mem s3) (BUFFER1 lay) (filesize s3) s3;
          s5 = s4\<lparr>moscrc := crc32_finalize s4\<rparr>
      in printf MsgNewlines s5)"

text \<open>
  The read loop of \<^verbatim>\<open>readMemory\<close>: one byte of the file per round, stored at
  \<^verbatim>\<open>ptr\<close>, with a dot printed every 2048 bytes. \<^verbatim>\<open>ptr\<close> and
  \<^verbatim>\<open>size\<close> are 24 bits wide.
\<close>

fun readMemory_loop :: "byte list \<Rightarrow> uint24 \<Rightarrow> uint24 \<Rightarrow> state \<Rightarrow> state \<times> uint24" where
  "readMemory_loop [] ptr sz s = (s, sz)"
| "readMemory_loop (b # bs) ptr sz s =
     (let s1 = s\<lparr>mem := (mem s)(ptr := b)\<rparr>;
          ptr1 = ptr + 1;
          sz1 = sz + 1;
          s2 = (if sz1 mod 2048 = 0 then printf MsgDot s1 else s1)
      in readMemory_loop bs ptr1 sz1 s2)"

definition readMemory :: "layout \<Rightarrow> env \<Rightarrow> state \<Rightarrow> state \<times> uint24" where
  "readMemory lay e s =
     (let s1 = printf MsgReading s
      in readMemory_loop (case mos_file e of None \<Rightarrow> [] | Some bs \<Rightarrow> bs) (BUFFER1 lay) 0 s1)"

definition print_version :: "state \<Rightarrow> state" where
  "print_version s = printf MsgVersion s"

subsection \<open>main\<close>

definition EXIT_FILENOTFOUND :: int where
  "EXIT_FILENOTFOUND = 4"

definition EXIT_INVALIDPARAMETER :: int where
  "EXIT_INVALIDPARAMETER = 19"

text \<open>
  The closing \<^verbatim>\<open>while(1);\<close> of the success path.
\<close>

partial_function (option) forever :: "unit \<Rightarrow> int option" where
  "forever u = forever u"

declare forever.simps [code]

text \<open>
  The end of \<^verbatim>\<open>main\<close>, from the call of \<^verbatim>\<open>update_mos\<close> on.
\<close>

definition main_flash :: "layout \<Rightarrow> env \<Rightarrow> state \<Rightarrow> state \<times> int option" where
  "main_flash lay e s =
     (case update_mos lay e s of
        (s1, None) \<Rightarrow> (s1, None)
      | (s1, Some ok) \<Rightarrow>
          if ok then
            (let s2 = printf MsgDone s1;
                 s3 = printf MsgUpdateVDP s2;
                 s4 = printf MsgOkToReset s3
             in (s4, forever ()))
          else (s1, Some 0))"

text \<open>
  \<^verbatim>\<open>main\<close>: the exit status, or \<open>None\<close> when the program never returns, with the
  state reached.
\<close>

definition main :: "layout \<Rightarrow> env \<Rightarrow> state \<Rightarrow> state \<times> int option" where
  "main lay e s =
     (let (s1, exist) = filesExist e s
      in if \<not> exist then (s1, Some EXIT_FILENOTFOUND)
         else
           (let (s2, valid) = validFirmware lay s1
            in if \<not> valid then (s2, Some EXIT_INVALIDPARAMETER)
               else
                 (let s3 = putch 12 s2;
                      s4 = print_version s3;
                      (s5, sz) = readMemory lay e s4;
                      s6 = s5\<lparr>filesize := sz\<rparr>
                  in if filesize s6 = 0 then (printf MsgReadError s6, Some 0)
                     else
                       (let s7 = calculateCRC32 lay s6;
                            s8 = showCRC32 s7
                        in case getResponse e s8 of
                             (s9, None) \<Rightarrow> (s9, None)
                           | (s9, Some response) \<Rightarrow>
                               if \<not> response then (s9, Some 0)
                               else main_flash lay e s9))))"

text \<open>
  The state in which the program starts: the globals are zero, interrupts are enabled,
  nothing has happened yet.
\<close>

definition initial_state :: "(uint24 \<Rightarrow> byte) \<Rightarrow> state" where
  "initial_state m =
     \<lparr>mem = m, moscrc = 0, filesize = 0, crc_acc = 0, interrupts_enabled = True,
      key_locked = True, trace = []\<rparr>"

section \<open>Closed forms of the event sequences\<close>

text \<open>
  The definitions of this section describe what the loops of \<^verbatim>\<open>update_mos\<close> are
  proved to do; none of them is used by the functions above.

  The erase loop from \<open>counter\<close> on: for every remaining page, the page number written to
  \<^verbatim>\<open>FLASH_PAGE\<close> and the erase bit written to \<^verbatim>\<open>FLASH_PGCTL\<close>.
\<close>

definition erase_events :: "layout \<Rightarrow> uint24 \<Rightarrow> event list" where
  "erase_events lay counter =
     concat (map (\<lambda>p. [RegWrite FLASH_PAGE (ucast (of_nat p :: uint24)), RegWrite FLASH_PGCTL 0x02])
                 [unat counter..<unat (FLASHPAGES lay)])"

text \<open>
  The events of page \<open>i\<close> of the write loop, and those of the whole programming phase for
  an image of \<open>fs\<close> bytes.
\<close>

definition page_events :: "layout \<Rightarrow> uint24 \<Rightarrow> uint24 \<Rightarrow> nat \<Rightarrow> event list" where
  "page_events lay pagemax lastpagebytes i =
     [Printf (MsgWriting (of_nat i + 1) pagemax),
      FastMemcpy (FLASHSTART lay + of_nat i * PAGESIZE lay) (BUFFER1 lay + of_nat i * PAGESIZE lay)
        (if i = unat pagemax - 1 then lastpagebytes else PAGESIZE lay)]"

definition program_events :: "layout \<Rightarrow> uint24 \<Rightarrow> event list" where
  "program_events lay fs =
     (let (pagemax, lastpagebytes) = determine_pages lay fs
      in concat (map (page_events lay pagemax lastpagebytes) [0..<unat pagemax]))"

text \<open>
  The checksum that attempt \<open>a\<close> computes over the flash, and whether it equals the
  expected one.
\<close>

definition flash_crc :: "layout \<Rightarrow> env \<Rightarrow> uint24 \<Rightarrow> int \<Rightarrow> uint32" where
  "flash_crc lay e fs a =
     crc32_final (crc32_bytes crc32_seed
       (map (\<lambda>i. flash_read e a (FLASHSTART lay + of_nat i)) [0..<unat fs]))"

definition verified :: "layout \<Rightarrow> env \<Rightarrow> uint24 \<Rightarrow> uint32 \<Rightarrow> int \<Rightarrow> bool" where
  "verified lay e fs crc a = (flash_crc lay e fs a = crc)"

text \<open>
  One whole cycle, attempt \<open>a\<close> with verification result \<open>ok\<close>: the start (retry message
  from the second attempt on, unprotecting, erase timing), the erase of every page of the
  flash, the copy of every page of the image, the lock and the verification.
\<close>

definition attempt_start :: "int \<Rightarrow> event list" where
  "attempt_start a =
     (if a > 0 then [Printf (MsgRetry a)] else [])
     @ [Printf MsgErasing, EnableFlashKey, RegWrite FLASH_PROT 0, EnableFlashKey,
        RegWrite FLASH_FDIV 0x5F]"

definition verify_events :: "layout \<Rightarrow> uint24 \<Rightarrow> bool \<Rightarrow> event list" where
  "verify_events lay fs ok =
     [Printf MsgCheckingCRC, Crc32 (FLASHSTART lay) fs, Printf (if ok then MsgOK else MsgERROR)]"

definition cycle_events :: "layout \<Rightarrow> uint24 \<Rightarrow> int \<Rightarrow> bool \<Rightarrow> event list" where
  "cycle_events lay fs a ok =
     attempt_start a @ erase_events lay 0 @ [Printf MsgNewline]
     @ program_events lay fs @ [LockFlashKey] @ verify_events lay fs ok"

text \<open>
  The cycles of attempts \<open>m\<close> to \<open>n - 1\<close>, each with the verification result that the
  device gives it.
\<close>

definition cycles :: "layout \<Rightarrow> env \<Rightarrow> state \<Rightarrow> nat \<Rightarrow> nat \<Rightarrow> event list" where
  "cycles lay e s m n =
     concat (map (\<lambda>i. cycle_events lay (filesize s) (int i)
                          (verified lay e (filesize s) (moscrc s) (int i))) [m..<n])"

text \<open>
  A device on which every page erase of the attempts 0, 1 and 2 comes to an end.
\<close>

definition erase_completes :: "layout \<Rightarrow> (uint24 \<Rightarrow> nat \<Rightarrow> byte) \<Rightarrow> bool" where
  "erase_completes lay rd = (\<forall>p. p < FLASHPAGES lay \<longrightarrow> (\<exists>i. rd p i AND 2 = 0))"

definition no_stall :: "layout \<Rightarrow> env \<Rightarrow> bool" where
  "no_stall lay e = (\<forall>a. 0 \<le> a \<and> a < 3 \<longrightarrow> erase_completes lay (pgctl e a))"

section \<open>Observations on event sequences\<close>

text \<open>
  The number of cycles started (each prints \<^verbatim>\<open>Erasing flash...\<close> once), the values
  written to \<^verbatim>\<open>FLASH_FDIV\<close> in order, and the number of bytes that the page copies
  carry.
\<close>

definition cycles_started :: "event list \<Rightarrow> nat" where
  "cycles_started t = length (filter (\<lambda>ev. ev = Printf MsgErasing) t)"

definition fdiv_writes :: "event list \<Rightarrow> byte list" where
  "fdiv_writes t =
     concat (map (\<lambda>ev. case ev of RegWrite r v \<Rightarrow> if r = FLASH_FDIV then [v] else [] | _ \<Rightarrow> []) t)"

definition bytes_written :: "event list \<Rightarrow> nat" where
  "bytes_written t =
     sum_list (map (\<lambda>ev. case ev of FastMemcpy addressto addressfrom n \<Rightarrow> unat n | _ \<Rightarrow> 0) t)"

text \<open>
  The events that touch the flash: the key register, the controller registers and the
  page copies.
\<close>

definition flash_event :: "event \<Rightarrow> bool" where
  "flash_event ev =
     (case ev of
        EnableFlashKey \<Rightarrow> True
      | LockFlashKey \<Rightarrow> True
      | RegWrite r v \<Rightarrow> True
      | FastMemcpy addressto addressfrom n \<Rightarrow> True
      | _ \<Rightarrow> False)"

definition flash_events :: "event list \<Rightarrow> event list" where
  "flash_events t = filter flash_event t"

text \<open>
  A check of the lock discipline on a sequence of events. The first component says
  whether the flash key register has been locked since the key was last enabled, a
  controller register last written or a page last copied; the second, whether every
  checksum pass so far ran in that condition. \<open>locked_for_verify\<close> holds when both are
  true at the end.
\<close>

fun lock_step :: "bool \<times> bool \<Rightarrow> event \<Rightarrow> bool \<times> bool" where
  "lock_step (locked, ok) EnableFlashKey = (False, ok)"
| "lock_step (locked, ok) LockFlashKey = (True, ok)"
| "lock_step (locked, ok) (RegWrite r v) = (False, ok)"
| "lock_step (locked, ok) (FastMemcpy addressto addressfrom n) = (False, ok)"
| "lock_step (locked, ok) (Crc32 ptr len) = (locked, ok \<and> locked)"
| "lock_step (locked, ok) (Printf m) = (locked, ok)"
| "lock_step (locked, ok) (Putch c) = (locked, ok)"
| "lock_step (locked, ok) Di = (locked, ok)"

definition locked_for_verify :: "bool \<Rightarrow> event list \<Rightarrow> bool" where
  "locked_for_verify locked t = (foldl lock_step (locked, True) t = (True, True))"

text \<open>
  Classes of events used in the proofs: what the erase loop adds, what an attempt adds
  after its start, and what the retry loop adds. \<open>unchanged\<close> relates two states with
  the same RAM, globals and interrupt mask.
\<close>

definition erase_event :: "event \<Rightarrow> bool" where
  "erase_event ev =
     (case ev of RegWrite r v \<Rightarrow> r = FLASH_PAGE \<or> (r = FLASH_PGCTL \<and> v = 0x02) | _ \<Rightarrow> False)"

definition inner_event :: "event \<Rightarrow> bool" where
  "inner_event ev =
     (case ev of
        Printf m \<Rightarrow> m \<noteq> MsgErasing
      | Putch c \<Rightarrow> False
      | Di \<Rightarrow> False
      | EnableFlashKey \<Rightarrow> False
      | LockFlashKey \<Rightarrow> True
      | RegWrite r v \<Rightarrow> r = FLASH_PAGE \<or> r = FLASH_PGCTL
      | FastMemcpy t f n \<Rightarrow> True
      | Crc32 p n \<Rightarrow> True)"

definition loop_event :: "event \<Rightarrow> bool" where
  "loop_event ev =
     (case ev of
        Putch c \<Rightarrow> False
      | Di \<Rightarrow> False
      | RegWrite r v \<Rightarrow> (r = FLASH_FDIV \<longrightarrow> v = 0x5F) \<and> (r = FLASH_PROT \<longrightarrow> v = 0)
      | _ \<Rightarrow> True)"

definition unchanged :: "state \<Rightarrow> state \<Rightarrow> bool" where
  "unchanged s s' =
     (mem s' = mem s \<and> moscrc s' = moscrc s \<and> filesize s' = filesize s
      \<and> interrupts_enabled s' = interrupts_enabled s)"

text \<open>
  The state in which \<^verbatim>\<open>main\<close> calls \<^verbatim>\<open>update_mos\<close>, when it gets there:
  after the checks, the loading of the file, the checksum of the image and the prompt.
\<close>

definition state_before_flash :: "layout \<Rightarrow> env \<Rightarrow> state \<Rightarrow> state" where
  "state_before_flash lay e s =
     (let s2 = fst (validFirmware lay (fst (filesExist e s)));
          s4 = print_version (putch 12 s2);
          s6 = (fst (readMemory lay e s4))\<lparr>filesize := snd (readMemory lay e s4)\<rparr>
      in fst (getResponse e (showCRC32 (calculateCRC32 lay s6))))"

text \<open>
  Modelled from the spec: the erase-timing divisor is the ceiling of the clock frequency
  times the minimum erase pulse width. The clock is given in Hz and the pulse width in
  nanoseconds, so that the product is divided by \<open>10\<^sup>9\<close>, rounding up.
\<close>

definition erase_divisor :: "nat \<Rightarrow> nat \<Rightarrow> nat" where
  "erase_divisor clock_hz pulse_ns = (clock_hz * pulse_ns + 999999999) div 1000000000"

section \<open>Example inputs\<close>

text \<open>
  A geometry to run the functions on: 128 KB of flash from address 0 (the size that the
  message of \<^verbatim>\<open>validFirmware\<close> names) in 128 pages of 1 KB, with the buffer at
  \<^verbatim>\<open>0x50000\<close>.
\<close>

definition example_layout :: layout where
  "example_layout =
     \<lparr>FLASHSTART = 0, BUFFER1 = 0x50000, PAGESIZE = 1024, FLASHPAGES = 128, FLASHSIZE = 0x20000\<rparr>"

text \<open>
  A state as \<^verbatim>\<open>update_mos\<close> may find it: the image is the single byte \<^verbatim>\<open>00\<close>,
  whose checksum is \<^verbatim>\<open>0xD202EF8D\<close>, and interrupts are enabled.
\<close>

definition example_state :: state where
  "example_state =
     \<lparr>mem = (\<lambda>a. 0), moscrc = 0xD202EF8D, filesize = 1, crc_acc = 0, interrupts_enabled = True,
      key_locked = True, trace = []\<rparr>"

text \<open>
  Environments: the file is the single byte \<^verbatim>\<open>00\<close>, the user presses \<^verbatim>\<open>y\<close>,
  every erase is complete at the first read of \<^verbatim>\<open>FLASH_PGCTL\<close>, and the flash reads
  back as \<open>rd\<close> says; then one without the file and one with an empty file.
\<close>

definition example_env :: "(int \<Rightarrow> uint24 \<Rightarrow> byte) \<Rightarrow> env" where
  "example_env rd = \<lparr>mos_file = Some [0], keys = [0x79], pgctl = (\<lambda>a p i. 0), flash_read = rd\<rparr>"

definition no_file_env :: env where
  "no_file_env = \<lparr>mos_file = None, keys = [], pgctl = (\<lambda>a p i. 0), flash_read = (\<lambda>a p. 0)\<rparr>"

definition empty_file_env :: env where
  "empty_file_env = \<lparr>mos_file = Some [], keys = [], pgctl = (\<lambda>a p i. 0), flash_read = (\<lambda>a p. 0)\<rparr>"

text \<open>
  RAM that already holds the five signature bytes at \<^verbatim>\<open>0x50000\<close>, the buffer address
  of \<open>example_layout\<close>, and zeros elsewhere.
\<close>

definition header_ram :: "uint24 \<Rightarrow> byte" where
  "header_ram =
     (\<lambda>a. 0)(0x50000 := 0xF3, 0x50001 := 0xED, 0x50002 := 0x7D, 0x50003 := 0x5B, 0x50004 := 0xC3)"

section \<open>Properties of the loops\<close>

declare erase_pages.simps [simp del] write_pages.simps [simp del] update_loop.simps [simp del]

lemma erase_events_step:
  assumes "counter < FLASHPAGES lay"
  shows "erase_events lay counter =
           [RegWrite FLASH_PAGE (ucast counter), RegWrite FLASH_PGCTL 0x02]
           @ erase_events lay (counter + 1)"
proof -
  have "unat counter < unat (FLASHPAGES lay)"
    using assms by (simp add: word_less_nat_alt)
  then have "[unat counter..<unat (FLASHPAGES lay)]
               = unat counter # [unat (counter + 1)..<unat (FLASHPAGES lay)]"
    by (simp add: upt_conv_Cons uint24_counter_step [OF assms])
  then show ?thesis
    by (simp add: erase_events_def)
qed

lemma erase_events_done:
  assumes "\<not> counter < FLASHPAGES lay"
  shows "erase_events lay counter = []"
  using assms by (simp add: erase_events_def word_less_nat_alt)

lemma erase_pages_Some:
  "erase_pages lay rd counter s = (s', Some u)
     \<Longrightarrow> s' = s\<lparr>trace := trace s @ erase_events lay counter\<rparr>"
proof (induction lay rd counter s rule: erase_pages.induct)
  case (1 lay rd counter s)
  show ?case
  proof (cases "counter < FLASHPAGES lay")
    case False
    with "1.prems" show ?thesis
      by (simp add: erase_pages.simps [of lay rd counter s] erase_events_done)
  next
    case True
    let ?s2 = "reg_write FLASH_PGCTL 0x02 (reg_write FLASH_PAGE (ucast counter) s)"
    from True "1.prems" obtain n where
      n: "erase_poll (rd counter) 0 = Some n" and
      rest: "erase_pages lay rd (counter + 1) ?s2 = (s', Some u)"
      by (auto simp: erase_pages.simps [of lay rd counter s] Let_def split: option.splits)
    from "1.IH" [OF True refl refl n rest]
    show ?thesis
      by (simp add: erase_events_step [OF True] reg_write_def emit_def)
  qed
qed

lemma erase_poll_clear:
  assumes "erase_poll rd i = Some y"
  shows "\<exists>j\<ge>i. rd j AND 2 = 0"
proof (rule erase_poll.raw_induct [where P = "\<lambda>rd i y. \<exists>j\<ge>i. rd j AND 2 = 0", OF _ assms])
  fix f :: "(nat \<Rightarrow> byte) \<Rightarrow> nat \<Rightarrow> nat option" and rd i y
  assume IH: "\<And>rd i y. f rd i = Some y \<Longrightarrow> \<exists>j\<ge>i. rd j AND 2 = 0"
    and step: "(if rd i AND 2 \<noteq> 0 then f rd (Suc i) else Some (Suc i)) = Some y"
  show "\<exists>j\<ge>i. rd j AND 2 = 0"
  proof (cases "rd i AND 2 = 0")
    case True
    then show ?thesis by blast
  next
    case False
    with step have "f rd (Suc i) = Some y" by simp
    from IH [OF this] obtain j where "Suc i \<le> j" "rd j AND 2 = 0" by blast
    then show ?thesis by (intro exI [of _ j]) simp
  qed
qed

lemma erase_poll_None:
  assumes "\<And>j. i \<le> j \<Longrightarrow> rd j AND 2 \<noteq> 0"
  shows "erase_poll rd i = None"
proof (cases "erase_poll rd i")
  case (Some y)
  from erase_poll_clear [OF this] assms show ?thesis by blast
qed simp

lemma erase_poll_Some:
  assumes "rd (i + d) AND 2 = 0"
  shows "\<exists>n. erase_poll rd i = Some n"
  using assms
proof (induction d arbitrary: i)
  case 0
  then show ?case by (subst erase_poll.simps) simp
next
  case (Suc d)
  then have "\<exists>n. erase_poll rd (Suc i) = Some n" by simp
  then show ?case by (subst erase_poll.simps) simp
qed

lemma erase_pages_completes:
  "erase_completes lay rd \<Longrightarrow> \<exists>s'. erase_pages lay rd counter s = (s', Some ())"
proof (induction lay rd counter s rule: erase_pages.induct)
  case (1 lay rd counter s)
  show ?case
  proof (cases "counter < FLASHPAGES lay")
    case False
    then show ?thesis
      by (simp add: erase_pages.simps [of lay rd counter s])
  next
    case True
    with "1.prems" obtain i where "rd counter (0 + i) AND 2 = 0"
      by (auto simp: erase_completes_def)
    from erase_poll_Some [of "rd counter" 0 i, OF this] obtain n where n: "erase_poll (rd counter) 0 = Some n"
      by blast
    from "1.IH" [OF True refl refl n "1.prems"] True n show ?thesis
      by (simp add: erase_pages.simps [of lay rd counter s])
  qed
qed

lemma erase_pages_any:
  "\<exists>t. fst (erase_pages lay rd counter s) = s\<lparr>trace := trace s @ t\<rparr> \<and> list_all erase_event t"
proof (induction lay rd counter s rule: erase_pages.induct)
  case (1 lay rd counter s)
  show ?case
  proof (cases "counter < FLASHPAGES lay")
    case False
    then have "fst (erase_pages lay rd counter s) = s\<lparr>trace := trace s @ []\<rparr>"
      by (simp add: erase_pages.simps [of lay rd counter s])
    then show ?thesis
      by (intro exI [of _ "[]"]) simp
  next
    case True
    let ?s2 = "reg_write FLASH_PGCTL 0x02 (reg_write FLASH_PAGE (ucast counter) s)"
    let ?t2 = "[RegWrite FLASH_PAGE (ucast counter), RegWrite FLASH_PGCTL 0x02]"
    have s2: "?s2 = s\<lparr>trace := trace s @ ?t2\<rparr>"
      by (simp add: reg_write_def emit_def)
    have t2: "list_all erase_event ?t2"
      by (simp add: erase_event_def)
    show ?thesis
    proof (cases "erase_poll (rd counter) 0")
      case None
      with True have "fst (erase_pages lay rd counter s) = ?s2"
        by (simp add: erase_pages.simps [of lay rd counter s])
      with s2 t2 show ?thesis
        by (intro exI [of _ ?t2]) simp
    next
      case (Some n)
      from "1.IH" [OF True refl refl Some] obtain t where
        t: "fst (erase_pages lay rd (counter + 1) ?s2) = ?s2\<lparr>trace := trace ?s2 @ t\<rparr>"
          "list_all erase_event t"
        by blast
      from True Some have "fst (erase_pages lay rd counter s) = fst (erase_pages lay rd (counter + 1) ?s2)"
        by (simp add: erase_pages.simps [of lay rd counter s])
      with t s2 t2 show ?thesis
        by (intro exI [of _ "?t2 @ t"]) simp
    qed
  qed
qed

lemma ceil_div_exact:
  fixes n p :: nat
  assumes "0 < p" "n mod p = 0"
  shows "(n + p - 1) div p = n div p"
proof -
  from assms obtain q where q: "n = q * p" by auto
  have "n + p - 1 = (p - 1) + q * p" using assms q by simp
  also have "\<dots> div p = q + (p - 1) div p"
    using assms by (intro div_mult_self1) simp
  also have "\<dots> = n div p" using assms q by simp
  finally show ?thesis .
qed

lemma ceil_div_inexact:
  fixes n p :: nat
  assumes "0 < p" "n mod p \<noteq> 0"
  shows "(n + p - 1) div p = n div p + 1"
proof -
  let ?r = "n mod p"
  have r: "0 < ?r" "?r < p" using assms by simp_all
  have "n = ?r + (n div p) * p" by simp
  then have "n + p - 1 = (?r - 1) + ((n div p) * p + p)"
    using r by linarith
  also have "\<dots> = (?r - 1) + (n div p + 1) * p"
    by (simp add: algebra_simps)
  also have "\<dots> div p = (n div p + 1) + (?r - 1) div p"
    using assms by (intro div_mult_self1) simp
  also have "\<dots> = n div p + 1" using r by simp
  finally show ?thesis .
qed

lemma determine_pages_unat:
  assumes "PAGESIZE lay \<noteq> 0"
  shows "unat (fst (determine_pages lay fs)) = (unat fs + unat (PAGESIZE lay) - 1) div unat (PAGESIZE lay)"
    and "unat (snd (determine_pages lay fs)) =
           (if unat fs mod unat (PAGESIZE lay) = 0 then unat (PAGESIZE lay)
            else unat fs mod unat (PAGESIZE lay))"
proof -
  let ?p = "unat (PAGESIZE lay)" and ?n = "unat fs"
  have p0: "0 < ?p"
    using assms by (simp add: unat_gt_0)
  have mod0: "(fs mod PAGESIZE lay = 0) = (?n mod ?p = 0)"
    by (simp add: unat_eq_zero [symmetric] unat_mod)
  show "unat (snd (determine_pages lay fs)) = (if ?n mod ?p = 0 then ?p else ?n mod ?p)"
    by (simp add: determine_pages_def Let_def mod0 unat_mod)
  show "unat (fst (determine_pages lay fs)) = (?n + ?p - 1) div ?p"
  proof (cases "?n mod ?p = 0")
    case True
    have ceil: "(?n + ?p - 1) div ?p = ?n div ?p"
      by (rule ceil_div_exact [OF p0 True])
    from True show ?thesis
      unfolding ceil by (simp add: determine_pages_def Let_def mod0 unat_div)
  next
    case False
    have "?n div ?p * ?p + ?n mod ?p = ?n" by simp
    with False have "?n div ?p * ?p < ?n" by linarith
    moreover have "?n div ?p * 1 \<le> ?n div ?p * ?p"
      using p0 by (intro mult_le_mono2) simp
    ultimately have "?n div ?p < ?n"
      by linarith
    then have "unat (fs div PAGESIZE lay) < unat fs"
      by (simp only: unat_div)
    then have "fs div PAGESIZE lay < fs"
      by (simp add: word_less_nat_alt)
    from uint24_counter_step [OF this]
    have inc: "unat (fs div PAGESIZE lay + 1) = Suc (?n div ?p)"
      by (simp add: unat_div)
    have ceil: "(?n + ?p - 1) div ?p = ?n div ?p + 1"
      by (rule ceil_div_inexact [OF p0 False])
    from False inc show ?thesis
      unfolding ceil by (simp add: determine_pages_def Let_def mod0)
  qed
qed

lemma last_page_test:
  fixes counter pagemax :: uint24
  assumes "counter < pagemax"
  shows "(counter = pagemax - 1) = (unat counter = unat pagemax - 1)"
proof -
  have "pagemax \<noteq> 0" using assms by auto
  then have "unat (pagemax - 1) = unat pagemax - 1"
    by (simp add: unat_minus_one)
  then show ?thesis
    by (metis word_unat_eq_iff)
qed

lemma write_pages_trace:
  "write_pages lay pagemax lastpagebytes counter
     (FLASHSTART lay + counter * PAGESIZE lay) (BUFFER1 lay + counter * PAGESIZE lay) s
   = s\<lparr>trace := trace s @ concat (map (page_events lay pagemax lastpagebytes)
                                      [unat counter..<unat pagemax])\<rparr>"
proof (induction "unat pagemax - unat counter" arbitrary: counter s)
  case 0
  then have "\<not> counter < pagemax"
    by (simp add: word_less_nat_alt)
  with 0 show ?case
    by (simp add: write_pages.simps [of lay pagemax lastpagebytes counter])
next
  case (Suc d)
  then have lt: "counter < pagemax"
    by (simp add: word_less_nat_alt)
  have step: "unat (counter + 1) = Suc (unat counter)"
    by (rule uint24_counter_step [OF lt])
  have d: "d = unat pagemax - unat (counter + 1)"
    using Suc.hyps(2) step by simp
  have upt: "[unat counter..<unat pagemax] = unat counter # [unat (counter + 1)..<unat pagemax]"
    using lt step by (simp add: upt_conv_Cons word_less_nat_alt)
  have addr: "FLASHSTART lay + counter * PAGESIZE lay + PAGESIZE lay
                = FLASHSTART lay + (counter + 1) * PAGESIZE lay"
             "BUFFER1 lay + counter * PAGESIZE lay + PAGESIZE lay
                = BUFFER1 lay + (counter + 1) * PAGESIZE lay"
    by (simp_all add: algebra_simps)
  show ?case
    apply (subst write_pages.simps)
    apply (simp only: lt if_True Let_def addr Suc.hyps(1) [OF d])
    apply (simp add: upt page_events_def last_page_test [OF lt] printf_def fastmemcpy_def emit_def)
    done
qed

lemma write_pages_trace0:
  "write_pages lay pagemax lastpagebytes 0 (FLASHSTART lay) (BUFFER1 lay) s
   = s\<lparr>trace := trace s @ concat (map (page_events lay pagemax lastpagebytes) [0..<unat pagemax])\<rparr>"
  using write_pages_trace [of lay pagemax lastpagebytes 0 s] by simp

lemma update_attempt_Some:
  assumes "update_attempt lay e a s = (s', Some ok)"
  shows "ok = verified lay e (filesize s) (moscrc s) a"
    and "s' = s\<lparr>crc_acc := crc32_bytes crc32_seed
                    (map (\<lambda>i. flash_read e a (FLASHSTART lay + of_nat i)) [0..<unat (filesize s)]),
                key_locked := True,
                trace := trace s @ cycle_events lay (filesize s) a ok\<rparr>"
proof -
  let ?s1 = "if a > 0 then printf (MsgRetry a) s else s"
  let ?s6 = "reg_write FLASH_FDIV 0x5F (enableFlashKeyRegister (reg_write FLASH_PROT 0
               (enableFlashKeyRegister (printf MsgErasing ?s1))))"
  have s6: "?s6 = s\<lparr>key_locked := False, trace := trace s @ attempt_start a\<rparr>"
    by (simp add: attempt_start_def printf_def reg_write_def enableFlashKeyRegister_def emit_def)
  obtain s7 r where er: "erase_pages lay (pgctl e a) 0 ?s6 = (s7, r)"
    by (cases "erase_pages lay (pgctl e a) 0 ?s6") 
  with assms obtain u where r: "r = Some u"
    by (cases r) (auto simp: update_attempt_def Let_def)
  from erase_pages_Some [OF er [unfolded r]] s6
  have s7: "s7 = s\<lparr>key_locked := False, trace := trace s @ attempt_start a @ erase_events lay 0\<rparr>"
    by simp
  obtain pagemax lastpagebytes where dp: "determine_pages lay (filesize s) = (pagemax, lastpagebytes)"
    by (cases "determine_pages lay (filesize s)")
  from assms er r
  show "ok = verified lay e (filesize s) (moscrc s) a"
    unfolding update_attempt_def Let_def s7
    by (auto simp: dp write_pages_trace0 printf_def crc32_def crc32_initialize_def
          crc32_finalize_def lockFlashKeyRegister_def emit_def verified_def flash_crc_def
          split: if_splits)
  from assms er r
  show "s' = s\<lparr>crc_acc := crc32_bytes crc32_seed
                    (map (\<lambda>i. flash_read e a (FLASHSTART lay + of_nat i)) [0..<unat (filesize s)]),
                key_locked := True,
                trace := trace s @ cycle_events lay (filesize s) a ok\<rparr>"
    unfolding update_attempt_def Let_def s7
    by (auto simp: dp write_pages_trace0 printf_def crc32_def crc32_initialize_def
          crc32_finalize_def lockFlashKeyRegister_def emit_def cycle_events_def
          program_events_def verify_events_def
          split: if_splits)
qed

lemma update_attempt_completes:
  assumes "erase_completes lay (pgctl e a)"
  shows "\<exists>s' ok. update_attempt lay e a s = (s', Some ok)"
proof -
  let ?s1 = "if a > 0 then printf (MsgRetry a) s else s"
  let ?s6 = "reg_write FLASH_FDIV 0x5F (enableFlashKeyRegister (reg_write FLASH_PROT 0
               (enableFlashKeyRegister (printf MsgErasing ?s1))))"
  from erase_pages_completes [OF assms] obtain s7 where
    "erase_pages lay (pgctl e a) 0 ?s6 = (s7, Some ())"
    by blast
  then show ?thesis
    unfolding update_attempt_def Let_def
    by (auto split: prod.splits)
qed

subsection \<open>Attempts and the retry loop\<close>

lemma inner_event_erase_events: "list_all inner_event (erase_events lay counter)"
  by (simp add: erase_events_def list_all_iff inner_event_def)

lemma inner_event_program_events: "list_all inner_event (program_events lay fs)"
  by (auto simp: program_events_def page_events_def list_all_iff inner_event_def split: prod.splits)

lemma inner_event_erase_event: "erase_event ev \<Longrightarrow> inner_event ev"
  by (auto simp: erase_event_def inner_event_def split: event.splits)

lemma update_attempt_any:
  obtains t where
    "trace (fst (update_attempt lay e a s)) = trace s @ attempt_start a @ t"
    "list_all inner_event t"
    "unchanged s (fst (update_attempt lay e a s))"
proof -
  let ?s1 = "if a > 0 then printf (MsgRetry a) s else s"
  let ?s6 = "reg_write FLASH_FDIV 0x5F (enableFlashKeyRegister (reg_write FLASH_PROT 0
               (enableFlashKeyRegister (printf MsgErasing ?s1))))"
  have s6: "?s6 = s\<lparr>key_locked := False, trace := trace s @ attempt_start a\<rparr>"
    by (simp add: attempt_start_def printf_def reg_write_def enableFlashKeyRegister_def emit_def)
  obtain s' r where res: "update_attempt lay e a s = (s', r)"
    by (cases "update_attempt lay e a s")
  show ?thesis
  proof (cases r)
    case None
    with res have "s' = fst (erase_pages lay (pgctl e a) 0 ?s6)"
      by (auto simp: update_attempt_def Let_def split: prod.splits option.splits if_splits)
    moreover obtain t where
      "fst (erase_pages lay (pgctl e a) 0 ?s6) = ?s6\<lparr>trace := trace ?s6 @ t\<rparr>"
      "list_all erase_event t"
      using erase_pages_any [of lay "pgctl e a" 0 ?s6] by blast
    ultimately have "trace s' = trace s @ attempt_start a @ t" "unchanged s s'"
      "list_all inner_event t"
      unfolding s6 by (simp_all add: unchanged_def list_all_iff inner_event_erase_event)
    with res that show ?thesis
      by simp
  next
    case (Some ok)
    from update_attempt_Some(2) [OF res [unfolded Some]]
    have "trace s' = trace s @ attempt_start a
            @ (erase_events lay 0 @ [Printf MsgNewline] @ program_events lay (filesize s)
               @ [LockFlashKey] @ verify_events lay (filesize s) ok)"
      and "unchanged s s'"
      by (simp_all add: cycle_events_def unchanged_def)
    moreover have "list_all inner_event
            (erase_events lay 0 @ [Printf MsgNewline] @ program_events lay (filesize s)
               @ [LockFlashKey] @ verify_events lay (filesize s) ok)"
      by (simp add: inner_event_erase_events inner_event_program_events verify_events_def
            inner_event_def)
    ultimately show ?thesis
      using res that by simp
  qed
qed

lemma cycles_started_inner: "list_all inner_event t \<Longrightarrow> cycles_started t = 0"
  by (induction t) (auto simp: cycles_started_def inner_event_def)

lemma cycles_started_attempt_start: "cycles_started (attempt_start a) = 1"
  by (simp add: cycles_started_def attempt_start_def)

lemma cycles_started_append: "cycles_started (t @ u) = cycles_started t + cycles_started u"
  by (simp add: cycles_started_def)

lemma loop_event_inner: "list_all inner_event t \<Longrightarrow> list_all loop_event t"
  by (induction t) (auto simp: inner_event_def loop_event_def split: event.splits)

lemma loop_event_attempt_start: "list_all loop_event (attempt_start a)"
  by (simp add: attempt_start_def loop_event_def)

lemma unchanged_refl: "unchanged s s"
  by (simp add: unchanged_def)

lemma unchanged_trans: "unchanged s s' \<Longrightarrow> unchanged s' s'' \<Longrightarrow> unchanged s s''"
  by (simp add: unchanged_def)

lemma fdiv_writes_append: "fdiv_writes (t @ u) = fdiv_writes t @ fdiv_writes u"
  by (simp add: fdiv_writes_def)

lemma fdiv_writes_inner: "list_all inner_event t \<Longrightarrow> fdiv_writes t = []"
  by (induction t) (auto simp: fdiv_writes_def inner_event_def split: event.splits)

lemma fdiv_writes_attempt_start: "fdiv_writes (attempt_start a) = [0x5F]"
  by (simp add: fdiv_writes_def attempt_start_def)

lemma update_loop_any:
  "\<exists>t. trace (fst (update_loop lay e success attempt s)) = trace s @ t
       \<and> list_all loop_event t
       \<and> cycles_started t \<le> nat (3 - attempt)
       \<and> (\<not> success \<and> attempt < 3 \<longrightarrow> 1 \<le> cycles_started t)
       \<and> fdiv_writes t = replicate (cycles_started t) 0x5F
       \<and> unchanged s (fst (update_loop lay e success attempt s))"
proof (induction lay e success attempt s rule: update_loop.induct)
  case (1 lay e success attempt s)
  show ?case
  proof (cases "\<not> success \<and> attempt < 3")
    case False
    then have "fst (update_loop lay e success attempt s) = s"
      by (subst update_loop.simps) auto
    with False show ?thesis
      by (intro exI [of _ "[]"]) (auto simp: cycles_started_def fdiv_writes_def unchanged_refl)
  next
    case True
    obtain s' r where res: "update_attempt lay e attempt s = (s', r)"
      by (cases "update_attempt lay e attempt s")
    obtain t where t: "trace s' = trace s @ attempt_start attempt @ t"
      "list_all inner_event t" "unchanged s s'"
      using update_attempt_any [of lay e attempt s] res by auto
    have one: "cycles_started (attempt_start attempt @ t) = 1"
      by (simp add: cycles_started_append cycles_started_attempt_start cycles_started_inner [OF t(2)])
    have fd: "fdiv_writes (attempt_start attempt @ t) = [0x5F]"
      by (simp add: fdiv_writes_append fdiv_writes_attempt_start fdiv_writes_inner [OF t(2)])
    have ev: "list_all loop_event (attempt_start attempt @ t)"
      by (simp add: loop_event_attempt_start loop_event_inner [OF t(2)])
    show ?thesis
    proof (cases r)
      case None
      with True res have "fst (update_loop lay e success attempt s) = s'"
        by (subst update_loop.simps) simp
      moreover from True have "1 \<le> nat (3 - attempt)"
        by linarith
      ultimately show ?thesis
        using t one ev fd by (intro exI [of _ "attempt_start attempt @ t"]) simp
    next
      case (Some success')
      from "1.IH" [OF True res [symmetric] Some]
      obtain u where u: "trace (fst (update_loop lay e success' (attempt + 1) s')) = trace s' @ u"
        "list_all loop_event u" "cycles_started u \<le> nat (3 - (attempt + 1))"
        "unchanged s' (fst (update_loop lay e success' (attempt + 1) s'))"
        "fdiv_writes u = replicate (cycles_started u) 0x5F"
        by blast
      from True res Some
      have "fst (update_loop lay e success attempt s)
              = fst (update_loop lay e success' (attempt + 1) s')"
        by (subst update_loop.simps) simp
      moreover from True have "1 + nat (3 - (attempt + 1)) \<le> nat (3 - attempt)"
        by linarith
      moreover have "cycles_started ((attempt_start attempt @ t) @ u) = 1 + cycles_started u"
        using one by (simp only: cycles_started_append)
      moreover have "unchanged s (fst (update_loop lay e success' (attempt + 1) s'))"
        using t(3) u(4) by (rule unchanged_trans)
      moreover have "fdiv_writes ((attempt_start attempt @ t) @ u)
                       = replicate (1 + cycles_started u) 0x5F"
        using fd u(5) by (simp only: fdiv_writes_append) simp
      ultimately show ?thesis
        using t u ev by (intro exI [of _ "(attempt_start attempt @ t) @ u"]) simp
    qed
  qed
qed

lemma cycles_unchanged: "unchanged s s' \<Longrightarrow> cycles lay e s' m n = cycles lay e s m n"
  by (simp add: cycles_def unchanged_def)

lemma cycles_step: "m < n \<Longrightarrow>
  cycles lay e s m n
    = cycle_events lay (filesize s) (int m) (verified lay e (filesize s) (moscrc s) (int m))
      @ cycles lay e s (Suc m) n"
  by (simp add: cycles_def upt_conv_Cons)

lemma update_loop_Some:
  assumes "update_loop lay e success attempt s = (s', Some r)" and "0 \<le> attempt"
  shows "\<exists>n. nat attempt \<le> n
        \<and> (success \<or> 3 \<le> attempt \<longrightarrow> n = nat attempt)
        \<and> (\<not> success \<and> attempt < 3 \<longrightarrow> nat attempt < n \<and> n \<le> 3)
        \<and> (\<forall>i. nat attempt \<le> i \<and> Suc i < n
               \<longrightarrow> \<not> verified lay e (filesize s) (moscrc s) (int i))
        \<and> r = (if n = nat attempt then success
                else verified lay e (filesize s) (moscrc s) (int (n - 1)))
        \<and> (r \<or> 3 \<le> n)
        \<and> trace s' = trace s @ cycles lay e s (nat attempt) n
        \<and> unchanged s s'
        \<and> (nat attempt < n \<longrightarrow> key_locked s')"
  using assms
proof (induction lay e success attempt s rule: update_loop.induct)
  case (1 lay e success attempt s)
  show ?case
  proof (cases "\<not> success \<and> attempt < 3")
    case False
    with "1.prems"(1) have "s' = s" "r = success"
      by (subst (asm) update_loop.simps, auto)+
    with False "1.prems"(2) show ?thesis
      by (intro exI [of _ "nat attempt"]) (auto simp: cycles_def unchanged_refl)
  next
    case True
    obtain s1 r1 where res: "update_attempt lay e attempt s = (s1, r1)"
      by (cases "update_attempt lay e attempt s")
    from "1.prems"(1) True res obtain ok where ok: "r1 = Some ok"
      by (subst (asm) update_loop.simps) (cases r1; simp)
    from "1.prems"(1) True res ok
    have rest: "update_loop lay e ok (attempt + 1) s1 = (s', Some r)"
      by (subst (asm) update_loop.simps) simp
    note att = update_attempt_Some [OF res [unfolded ok]]
    have un: "unchanged s s1"
      by (subst att(2)) (simp add: unchanged_def)
    have fs: "filesize s1 = filesize s" "moscrc s1 = moscrc s"
      using un by (simp_all add: unchanged_def)
    have tr: "trace s1 = trace s @ cycle_events lay (filesize s) attempt ok"
      by (subst att(2)) simp
    have kl: "key_locked s1"
      by (subst att(2)) simp
    have suc: "nat (attempt + 1) = Suc (nat attempt)" "int (nat attempt) = attempt"
      using "1.prems"(2) by simp_all
    from "1.IH" [OF True res [symmetric] ok rest] "1.prems"(2)
    obtain n where n:
      "nat (attempt + 1) \<le> n"
      "ok \<or> 3 \<le> attempt + 1 \<longrightarrow> n = nat (attempt + 1)"
      "\<not> ok \<and> attempt + 1 < 3 \<longrightarrow> nat (attempt + 1) < n \<and> n \<le> 3"
      "\<forall>i. nat (attempt + 1) \<le> i \<and> Suc i < n
               \<longrightarrow> \<not> verified lay e (filesize s1) (moscrc s1) (int i)"
      "r = (if n = nat (attempt + 1) then ok
                else verified lay e (filesize s1) (moscrc s1) (int (n - 1)))"
      "r \<or> 3 \<le> n"
      "trace s' = trace s1 @ cycles lay e s1 (nat (attempt + 1)) n"
      "unchanged s1 s'"
      "nat (attempt + 1) < n \<longrightarrow> key_locked s'"
      by auto
    have lt: "nat attempt < n"
      using n(1) suc by simp
    have le3: "n \<le> 3"
      using n(2,3) True suc by (cases "ok \<or> 3 \<le> attempt + 1") auto
    have nov: "\<not> verified lay e (filesize s) (moscrc s) (int i)"
      if "nat attempt \<le> i" "Suc i < n" for i
    proof (cases "i = nat attempt")
      case True
      with that n(2) suc have "\<not> ok" by auto
      with att(1) True suc show ?thesis by simp
    next
      case False
      with that n(4) suc fs show ?thesis by simp
    qed
    have rr: "r = verified lay e (filesize s) (moscrc s) (int (n - 1))"
    proof (cases "n = nat (attempt + 1)")
      case True
      with n(5) att(1) suc show ?thesis by simp
    next
      case False
      with n(5) fs show ?thesis by simp
    qed
    have trace: "trace s' = trace s @ cycles lay e s (nat attempt) n"
      using n(7) tr att(1) suc
      by (simp add: cycles_step [OF lt] cycles_unchanged [OF un])
    have un': "unchanged s s'"
      using un n(8) by (rule unchanged_trans)
    have kl': "key_locked s'"
    proof (cases "n = nat (attempt + 1)")
      case True
      with n(3) have "ok \<or> 3 \<le> attempt + 1"
        by auto
      with rest have "s' = s1"
        by (subst (asm) update_loop.simps) auto
      with kl show ?thesis by simp
    next
      case False
      with n(1,9) show ?thesis by simp
    qed
    from lt le3 nov rr n(6) trace un' kl' True show ?thesis
      by (intro exI [of _ n]) auto
  qed
qed

lemma update_loop_completes:
  "no_stall lay e \<Longrightarrow> 0 \<le> attempt
     \<Longrightarrow> \<exists>s' r. update_loop lay e success attempt s = (s', Some r)"
proof (induction lay e success attempt s rule: update_loop.induct)
  case (1 lay e success attempt s)
  show ?case
  proof (cases "\<not> success \<and> attempt < 3")
    case False
    then show ?thesis
      by (subst update_loop.simps) auto
  next
    case True
    from "1.prems" True have "erase_completes lay (pgctl e attempt)"
      by (simp add: no_stall_def)
    from update_attempt_completes [OF this] obtain s1 ok where
      res: "update_attempt lay e attempt s = (s1, Some ok)"
      by blast
    from "1.prems"(2) have "0 \<le> attempt + 1"
      by simp
    from "1.IH" [OF True res [symmetric] refl "1.prems"(1) this] True res show ?thesis
      by (subst update_loop.simps) simp
  qed
qed

lemma update_mos_completes:
  assumes "no_stall lay e"
  shows "\<exists>s' r. update_mos lay e s = (s', Some r)"
proof -
  have "\<exists>s3 r. update_loop lay e False 0 (di (printf MsgProgramming s)) = (s3, Some r)"
    by (rule update_loop_completes [OF assms]) simp
  then obtain s3 r where
    "update_loop lay e False 0 (di (printf MsgProgramming s)) = (s3, Some r)"
    by blast
  then show ?thesis
    by (simp add: update_mos_def Let_def)
qed

lemma update_mos_Some:
  assumes "update_mos lay e s = (s', Some r)"
  shows "\<exists>n. 1 \<le> n \<and> n \<le> 3
        \<and> (\<forall>i. Suc i < n \<longrightarrow> \<not> verified lay e (filesize s) (moscrc s) (int i))
        \<and> r = verified lay e (filesize s) (moscrc s) (int (n - 1))
        \<and> (r \<or> n = 3)
        \<and> trace s' = trace s @ [Printf MsgProgramming, Di] @ cycles lay e s 0 n
                        @ [Printf MsgNewline]
        \<and> mem s' = mem s \<and> moscrc s' = moscrc s \<and> filesize s' = filesize s
        \<and> \<not> interrupts_enabled s' \<and> key_locked s'"
proof -
  let ?s2 = "di (printf MsgProgramming s)"
  have s2: "?s2 = s\<lparr>interrupts_enabled := False, trace := trace s @ [Printf MsgProgramming, Di]\<rparr>"
    by (simp add: di_def printf_def emit_def)
  obtain s3 r3 where loop: "update_loop lay e False 0 ?s2 = (s3, r3)"
    by (cases "update_loop lay e False 0 ?s2")
  with assms have r3: "r3 = Some r" and s': "s' = printf MsgNewline s3"
    by (auto simp: update_mos_def Let_def split: option.splits)
  have un2: "unchanged ?s2 (s\<lparr>interrupts_enabled := False\<rparr>)"
    unfolding s2 by (simp add: unchanged_def)
  have "\<exists>n. (0 < n \<and> n \<le> 3)
        \<and> (\<forall>i. Suc i < n \<longrightarrow> \<not> verified lay e (filesize ?s2) (moscrc ?s2) (int i))
        \<and> r = (if n = 0 then False else verified lay e (filesize ?s2) (moscrc ?s2) (int (n - 1)))
        \<and> (r \<or> 3 \<le> n)
        \<and> trace s3 = trace ?s2 @ cycles lay e ?s2 0 n
        \<and> unchanged ?s2 s3
        \<and> (0 < n \<longrightarrow> key_locked s3)"
    using update_loop_Some [OF loop [unfolded r3]] by simp
  then obtain n where n:
    "0 < n \<and> n \<le> 3"
    "\<forall>i. Suc i < n \<longrightarrow> \<not> verified lay e (filesize ?s2) (moscrc ?s2) (int i)"
    "r = (if n = 0 then False else verified lay e (filesize ?s2) (moscrc ?s2) (int (n - 1)))"
    "r \<or> 3 \<le> n"
    "trace s3 = trace ?s2 @ cycles lay e ?s2 0 n"
    "unchanged ?s2 s3"
    "0 < n \<longrightarrow> key_locked s3"
    by blast
  have c: "cycles lay e ?s2 0 n = cycles lay e s 0 n"
    unfolding s2 by (simp add: cycles_def)
  from n c show ?thesis
    unfolding s' s2
    by (intro exI [of _ n]) (auto simp: printf_def emit_def unchanged_def)
qed

lemma update_mos_any:
  "\<exists>t. trace (fst (update_mos lay e s)) = trace s @ [Printf MsgProgramming, Di] @ t
       \<and> list_all loop_event t \<and> cycles_started t \<le> 3 \<and> 1 \<le> cycles_started t
       \<and> fdiv_writes t = replicate (cycles_started t) 0x5F
       \<and> mem (fst (update_mos lay e s)) = mem s
       \<and> moscrc (fst (update_mos lay e s)) = moscrc s
       \<and> filesize (fst (update_mos lay e s)) = filesize s
       \<and> \<not> interrupts_enabled (fst (update_mos lay e s))"
proof -
  let ?s2 = "di (printf MsgProgramming s)"
  have s2: "?s2 = s\<lparr>interrupts_enabled := False, trace := trace s @ [Printf MsgProgramming, Di]\<rparr>"
    by (simp add: di_def printf_def emit_def)
  obtain s3 r3 where loop: "update_loop lay e False 0 ?s2 = (s3, r3)"
    by (cases "update_loop lay e False 0 ?s2")
  from update_loop_any [of lay e False 0 ?s2] loop obtain t where t:
    "trace s3 = trace ?s2 @ t" "list_all loop_event t" "cycles_started t \<le> 3"
    "unchanged ?s2 s3" "1 \<le> cycles_started t"
    "fdiv_writes t = replicate (cycles_started t) 0x5F"
    by auto
  show ?thesis
  proof (cases r3)
    case None
    with loop have "fst (update_mos lay e s) = s3"
      by (simp add: update_mos_def Let_def)
    with t show ?thesis
      unfolding s2 by (intro exI [of _ t]) (simp add: unchanged_def)
  next
    case (Some r)
    with loop have "fst (update_mos lay e s) = printf MsgNewline s3"
      by (simp add: update_mos_def Let_def)
    with t show ?thesis
      unfolding s2
      by (intro exI [of _ "t @ [Printf MsgNewline]"])
         (simp add: unchanged_def printf_def emit_def loop_event_def cycles_started_def
            fdiv_writes_def)
  qed
qed

subsection \<open>Evaluating the checksum\<close>

lemma crc32_table_nth:
  fixes x :: uint32
  assumes "x \<le> 0xFF"
  shows "crc32_table ! unat x = crc32_table_entry x"
proof -
  have "unat x \<le> unat (0xFF :: uint32)"
    using assms by (simp only: word_le_nat_alt)
  then have "unat x < 256"
    by simp
  then have "map (\<lambda>i. crc32_table_entry (of_nat i)) [0..<256] ! unat x
               = crc32_table_entry (of_nat ([0..<256] ! unat x))"
    by (intro nth_map) (simp only: length_upt diff_zero)
  also have "[0..<256] ! unat x = unat x"
    using \<open>unat x < 256\<close> by (simp only: nth_upt add_0)
  finally show ?thesis
    by (simp only: crc32_table_def of_nat_unat ucast_id)
qed

lemma crc32_step_entry:
  "crc32_step c b = crc32_table_entry ((c XOR ucast b) AND 0xFF) XOR drop_bit 8 c"
  unfolding crc32_step_def
  by (simp only: crc32_table_nth [OF word_and_le1])

lemma crc32_table_entry_unfold:
  "crc32_table_entry i =
     crc32_shift (crc32_shift (crc32_shift (crc32_shift
       (crc32_shift (crc32_shift (crc32_shift (crc32_shift i)))))))"
  by (simp add: crc32_table_entry_def eval_nat_numeral)

text \<open>
  Rewrite rules that compute the checksum of literal bytes only, so that they can be
  used next to the definitions of the program.
\<close>

lemma crc32_shift_literal:
  "crc32_shift 0 = 0"
  "crc32_shift 1 = 0xEDB88320"
  "crc32_shift (numeral n) =
     (if numeral n AND 1 \<noteq> (0 :: uint32) then drop_bit 1 (numeral n) XOR 0xEDB88320
      else drop_bit 1 (numeral n))"
  by (simp_all add: crc32_shift_def crc32_poly_def)

lemma crc32_table_entry_literal:
  "crc32_table_entry 0 = 0"
  "crc32_table_entry 1 = crc32_shift (crc32_shift (crc32_shift (crc32_shift
       (crc32_shift (crc32_shift (crc32_shift (crc32_shift 1)))))))"
  "crc32_table_entry (numeral n) = crc32_shift (crc32_shift (crc32_shift (crc32_shift
       (crc32_shift (crc32_shift (crc32_shift (crc32_shift (numeral n))))))))"
  by (simp_all add: crc32_table_entry_unfold crc32_shift_literal)

lemmas crc32_eval =
  crc32_of_def crc32_bytes_def crc32_seed_def crc32_final_def crc32_step_entry
  crc32_table_entry_literal crc32_shift_literal

lemma bytes_written_append: "bytes_written (t @ u) = bytes_written t + bytes_written u"
  by (simp add: bytes_written_def)

lemma bytes_written_page_events:
  "bytes_written (page_events lay pagemax lastpagebytes i)
     = (if i = unat pagemax - 1 then unat lastpagebytes else unat (PAGESIZE lay))"
  by (simp add: bytes_written_def page_events_def)

lemma bytes_written_full_pages:
  assumes "k < unat pagemax"
  shows "bytes_written (concat (map (page_events lay pagemax lastpagebytes) [0..<k]))
           = k * unat (PAGESIZE lay)"
  using assms
proof (induction k)
  case 0
  show ?case by (simp add: bytes_written_def)
next
  case (Suc k)
  then have "k \<noteq> unat pagemax - 1" "k < unat pagemax"
    by simp_all
  with Suc.IH show ?case
    by (simp add: bytes_written_append bytes_written_page_events)
qed

lemma bytes_written_pages:
  assumes "0 < unat pagemax"
  shows "bytes_written (concat (map (page_events lay pagemax lastpagebytes) [0..<unat pagemax]))
           = (unat pagemax - 1) * unat (PAGESIZE lay) + unat lastpagebytes"
proof -
  let ?m = "unat pagemax"
  from assms have "Suc (?m - 1) = ?m"
    by simp
  then have split: "[0..<?m] = [0..<?m - 1] @ [?m - 1]"
    using upt_Suc_append [of 0 "?m - 1"] by simp
  have "?m - 1 < ?m" using assms by simp
  from bytes_written_full_pages [OF this]
  show ?thesis
    by (subst split) (simp add: bytes_written_append bytes_written_page_events)
qed

lemma determine_pages_exact:
  assumes "PAGESIZE lay \<noteq> 0" "unat fs mod unat (PAGESIZE lay) = 0"
  shows "unat (fst (determine_pages lay fs)) = unat fs div unat (PAGESIZE lay)"
    and "unat (snd (determine_pages lay fs)) = unat (PAGESIZE lay)"
proof -
  have p0: "0 < unat (PAGESIZE lay)"
    using assms(1) by (simp add: unat_gt_0)
  from determine_pages_unat [OF assms(1), of fs]
  show "unat (fst (determine_pages lay fs)) = unat fs div unat (PAGESIZE lay)"
    and "unat (snd (determine_pages lay fs)) = unat (PAGESIZE lay)"
    unfolding ceil_div_exact [OF p0 assms(2)] using assms(2) by simp_all
qed

lemma determine_pages_inexact:
  assumes "PAGESIZE lay \<noteq> 0" "unat fs mod unat (PAGESIZE lay) \<noteq> 0"
  shows "unat (fst (determine_pages lay fs)) = unat fs div unat (PAGESIZE lay) + 1"
    and "unat (snd (determine_pages lay fs)) = unat fs mod unat (PAGESIZE lay)"
proof -
  have p0: "0 < unat (PAGESIZE lay)"
    using assms(1) by (simp add: unat_gt_0)
  from determine_pages_unat [OF assms(1), of fs]
  show "unat (fst (determine_pages lay fs)) = unat fs div unat (PAGESIZE lay) + 1"
    and "unat (snd (determine_pages lay fs)) = unat fs mod unat (PAGESIZE lay)"
    unfolding ceil_div_inexact [OF p0 assms(2)] using assms(2) by simp_all
qed

lemma bytes_written_program:
  assumes "PAGESIZE lay \<noteq> 0"
  shows "bytes_written (concat (map (page_events lay (fst (determine_pages lay fs))
                                       (snd (determine_pages lay fs)))
                                  [0..<unat (fst (determine_pages lay fs))])) = unat fs"
proof -
  let ?p = "unat (PAGESIZE lay)" and ?n = "unat fs"
  let ?m = "unat (fst (determine_pages lay fs))" and ?l = "unat (snd (determine_pages lay fs))"
  let ?b = "bytes_written (concat (map (page_events lay (fst (determine_pages lay fs))
                                       (snd (determine_pages lay fs))) [0..<?m]))"
  show ?thesis
  proof (cases "?n mod ?p = 0")
    case True
    note m = determine_pages_exact(1) [OF assms True] and l = determine_pages_exact(2) [OF assms True]
    have "?n div ?p * ?p + ?n mod ?p = ?n"
      by simp
    with True m have n: "?n = ?m * ?p"
      by simp
    show ?thesis
    proof (cases "?m = 0")
      case True
      with n show ?thesis by (simp add: bytes_written_def)
    next
      case False
      then have pos: "0 < ?m" by simp
      have "?b = (?m - 1) * ?p + ?p"
        using bytes_written_pages [OF pos] by (simp only: l)
      also have "\<dots> = (?m - 1 + 1) * ?p"
        by (simp add: algebra_simps)
      also have "\<dots> = ?n"
        using pos n by simp
      finally show ?thesis .
    qed
  next
    case False
    note m = determine_pages_inexact(1) [OF assms False] and l = determine_pages_inexact(2) [OF assms False]
    have pos: "0 < ?m" using m by simp
    have "?b = (?m - 1) * ?p + ?n mod ?p"
      using bytes_written_pages [OF pos] by (simp only: l)
    also have "\<dots> = ?n div ?p * ?p + ?n mod ?p"
      using m by simp
    also have "\<dots> = ?n"
      by simp
    finally show ?thesis .
  qed
qed

lemma cycles_started_cycle_events: "cycles_started (cycle_events lay fs a ok) = 1"
proof -
  have "list_all inner_event (erase_events lay 0 @ [Printf MsgNewline] @ program_events lay fs
          @ [LockFlashKey] @ verify_events lay fs ok)"
    by (simp add: inner_event_erase_events inner_event_program_events verify_events_def
          inner_event_def)
  from cycles_started_inner [OF this] show ?thesis
    by (simp add: cycle_events_def cycles_started_append cycles_started_attempt_start)
qed

lemma cycles_started_cycles: "cycles_started (cycles lay e s 0 n) = n"
proof (induction n)
  case 0
  show ?case by (simp add: cycles_def cycles_started_def)
next
  case (Suc n)
  have "cycles lay e s 0 (Suc n)
          = cycles lay e s 0 n
            @ cycle_events lay (filesize s) (int n) (verified lay e (filesize s) (moscrc s) (int n))"
    by (simp add: cycles_def)
  with Suc show ?case
    by (simp add: cycles_started_append cycles_started_cycle_events)
qed

lemma update_mos_succeeds:
  assumes "no_stall lay e" and "1 \<le> k" and "k \<le> 3"
    and "\<forall>i. Suc i < k \<longrightarrow> \<not> verified lay e (filesize s) (moscrc s) (int i)"
    and "verified lay e (filesize s) (moscrc s) (int (k - 1))"
  shows "snd (update_mos lay e s) = Some True"
    and "trace (fst (update_mos lay e s))
           = trace s @ [Printf MsgProgramming, Di] @ cycles lay e s 0 k @ [Printf MsgNewline]"
proof -
  from update_mos_completes [OF assms(1)] obtain s' r where res: "update_mos lay e s = (s', Some r)"
    by blast
  from update_mos_Some [OF res] obtain n where n:
    "1 \<le> n" "n \<le> 3"
    "\<forall>i. Suc i < n \<longrightarrow> \<not> verified lay e (filesize s) (moscrc s) (int i)"
    "r = verified lay e (filesize s) (moscrc s) (int (n - 1))"
    "r \<or> n = 3"
    "trace s' = trace s @ [Printf MsgProgramming, Di] @ cycles lay e s 0 n @ [Printf MsgNewline]"
    by blast
  have "n = k"
  proof (rule ccontr)
    assume "n \<noteq> k"
    then consider "n < k" | "k < n" by linarith
    then show False
    proof cases
      case 1
      with n(1) have "Suc (n - 1) < k" by simp
      with assms(4) n(4) have "\<not> r" by blast
      with n(5) 1 assms(3) show False by simp
    next
      case 2
      with assms(2) have "Suc (k - 1) < n" by simp
      with n(3) assms(5) show False by blast
    qed
  qed
  with n(4,6) assms(5) res
  show "snd (update_mos lay e s) = Some True"
    and "trace (fst (update_mos lay e s))
           = trace s @ [Printf MsgProgramming, Di] @ cycles lay e s 0 k @ [Printf MsgNewline]"
    by simp_all
qed

lemma update_mos_exhausted:
  assumes "no_stall lay e"
    and "\<forall>i<3. \<not> verified lay e (filesize s) (moscrc s) (int i)"
  shows "snd (update_mos lay e s) = Some False"
    and "trace (fst (update_mos lay e s))
           = trace s @ [Printf MsgProgramming, Di] @ cycles lay e s 0 3 @ [Printf MsgNewline]"
proof -
  from update_mos_completes [OF assms(1)] obtain s' r where res: "update_mos lay e s = (s', Some r)"
    by blast
  from update_mos_Some [OF res] obtain n where n:
    "1 \<le> n" "n \<le> 3"
    "r = verified lay e (filesize s) (moscrc s) (int (n - 1))"
    "r \<or> n = 3"
    "trace s' = trace s @ [Printf MsgProgramming, Di] @ cycles lay e s 0 n @ [Printf MsgNewline]"
    by blast
  from n(1,2) have "n - 1 < 3" by simp
  with assms(2) n(3) have "\<not> r" by blast
  with n(4,5) res
  show "snd (update_mos lay e s) = Some False"
    and "trace (fst (update_mos lay e s))
           = trace s @ [Printf MsgProgramming, Di] @ cycles lay e s 0 3 @ [Printf MsgNewline]"
    by simp_all
qed

lemma no_stall_example: "no_stall lay (example_env rd)"
  by (simp add: no_stall_def erase_completes_def example_env_def)

lemma verified_example:
  "verified example_layout (example_env rd) (filesize example_state) (moscrc example_state) a
     = (crc32_of [rd a 0] = 0xD202EF8D)"
  by (simp add: verified_def flash_crc_def example_state_def example_env_def example_layout_def
        crc32_of_def)

lemma crc32_of_examples:
  "crc32_of [0] = 0xD202EF8D" "crc32_of [0xFF] = 0xFF000000"
  by (simp_all add: crc32_eval)

lemma lock_step_unlocked:
  "list_all inner_event t \<Longrightarrow> LockFlashKey \<notin> set t \<Longrightarrow> \<forall>p n. Crc32 p n \<notin> set t
     \<Longrightarrow> foldl lock_step (False, ok) t = (False, ok)"
proof (induction t)
  case Nil
  show ?case by simp
next
  case (Cons ev t)
  then show ?case
    by (cases ev) (auto simp: inner_event_def)
qed

lemma lock_step_attempt_start: "foldl lock_step (locked, ok) (attempt_start a) = (False, ok)"
  by (simp add: attempt_start_def)

lemma lock_step_cycle_events:
  "foldl lock_step (locked, ok) (cycle_events lay fs a v) = (True, ok)"
proof -
  let ?mid = "erase_events lay 0 @ [Printf MsgNewline] @ program_events lay fs"
  have "list_all inner_event ?mid"
    by (simp add: inner_event_erase_events inner_event_program_events inner_event_def)
  moreover have "LockFlashKey \<notin> set ?mid" "\<forall>p n. Crc32 p n \<notin> set ?mid"
    by (auto simp: erase_events_def program_events_def page_events_def split: prod.splits)
  ultimately have "foldl lock_step (False, ok) ?mid = (False, ok)"
    by (rule lock_step_unlocked)
  then have "foldl lock_step (locked, ok) (attempt_start a @ ?mid) = (False, ok)"
    by (simp only: foldl_append lock_step_attempt_start)
  then have "foldl lock_step (locked, ok)
               ((attempt_start a @ ?mid) @ [LockFlashKey] @ verify_events lay fs v) = (True, ok)"
    by (simp only: foldl_append) (simp add: verify_events_def)
  then show ?thesis
    by (simp add: cycle_events_def)
qed

lemma lock_step_cycles:
  "0 < n \<Longrightarrow> foldl lock_step (locked, ok) (cycles lay e s 0 n) = (True, ok)"
proof (induction n arbitrary: locked)
  case 0
  then show ?case by simp
next
  case (Suc n)
  have "cycles lay e s 0 (Suc n)
          = cycles lay e s 0 n
            @ cycle_events lay (filesize s) (int n) (verified lay e (filesize s) (moscrc s) (int n))"
    by (simp add: cycles_def)
  moreover have "\<exists>l. foldl lock_step (locked, ok) (cycles lay e s 0 n) = (l, ok)"
  proof (cases "n = 0")
    case True
    then show ?thesis by (simp add: cycles_def)
  next
    case False
    with Suc.IH [of locked] show ?thesis by blast
  qed
  ultimately show ?case
    by (auto simp: lock_step_cycle_events)
qed

lemma div_eq_bounds:
  fixes a b q :: nat
  assumes "0 < b"
  shows "(a div b = q) = (q * b \<le> a \<and> a < (q + 1) * b)"
proof
  assume "a div b = q"
  then show "q * b \<le> a \<and> a < (q + 1) * b"
    using assms dividend_less_div_times [of b a] by auto
next
  assume "q * b \<le> a \<and> a < (q + 1) * b"
  then show "a div b = q"
    by (intro div_nat_eqI) (simp_all add: mult.commute)
qed

lemma erase_divisor_95:
  "(erase_divisor clock_hz 5100 = 95) = (18431373 \<le> clock_hz \<and> clock_hz \<le> 18627450)"
proof -
  have lower: "(95000000000 \<le> clock_hz * 5100 + 999999999) = (18431373 \<le> clock_hz)"
  proof (cases "18431373 \<le> clock_hz")
    case True
    then show ?thesis by linarith
  next
    case False
    then have "clock_hz \<le> 18431372" by simp
    then show ?thesis by linarith
  qed
  have upper: "(clock_hz * 5100 + 999999999 < 96000000000) = (clock_hz \<le> 18627450)"
  proof (cases "clock_hz \<le> 18627450")
    case True
    then show ?thesis by linarith
  next
    case False
    then have "18627451 \<le> clock_hz" by simp
    then show ?thesis by linarith
  qed
  have "((clock_hz * 5100 + 999999999) div 1000000000 = 95)
          = (95000000000 \<le> clock_hz * 5100 + 999999999
             \<and> clock_hz * 5100 + 999999999 < 96000000000)"
    using div_eq_bounds [of 1000000000 "clock_hz * 5100 + 999999999" 95] by simp
  then show ?thesis
    unfolding erase_divisor_def by (simp only: lower upper)
qed

lemma fdiv_writes_cycles: "fdiv_writes (cycles lay e s 0 n) = replicate n 0x5F"
proof (induction n)
  case 0
  show ?case by (simp add: cycles_def fdiv_writes_def)
next
  case (Suc n)
  have "list_all inner_event (erase_events lay 0 @ [Printf MsgNewline] @ program_events lay fs
          @ [LockFlashKey] @ verify_events lay fs ok)" for fs ok
    by (simp add: inner_event_erase_events inner_event_program_events verify_events_def
          inner_event_def)
  from fdiv_writes_inner [OF this]
  have "fdiv_writes (cycle_events lay fs a ok) = [0x5F]" for fs a ok
    by (simp add: cycle_events_def fdiv_writes_append fdiv_writes_attempt_start)
  moreover have "cycles lay e s 0 (Suc n)
          = cycles lay e s 0 n
            @ cycle_events lay (filesize s) (int n) (verified lay e (filesize s) (moscrc s) (int n))"
    by (simp add: cycles_def)
  ultimately show ?case
    using Suc by (simp add: fdiv_writes_append replicate_append_same)
qed

lemma forever_None: "forever u = None"
proof (rule ccontr)
  assume "forever u \<noteq> None"
  then obtain y where y: "forever u = Some y" by auto
  show False
    using forever.raw_induct [where P = "\<lambda>_ _. False", OF _ y] by blast
qed

lemma flash_events_printf: "flash_events (trace (printf m s)) = flash_events (trace s)"
  by (simp add: printf_def emit_def flash_events_def flash_event_def)

lemma flash_events_putch: "flash_events (trace (putch c s)) = flash_events (trace s)"
  by (simp add: putch_def emit_def flash_events_def flash_event_def)

lemma readMemory_loop_result:
  "snd (readMemory_loop bs ptr sz s) = sz + of_nat (length bs)
   \<and> flash_events (trace (fst (readMemory_loop bs ptr sz s))) = flash_events (trace s)"
proof (induction bs arbitrary: ptr sz s)
  case Nil
  show ?case by simp
next
  case (Cons b bs)
  show ?case
    by (simp add: Cons Let_def flash_events_printf)
qed

lemma readMemory_result:
  "snd (readMemory lay e s) = of_nat (length (case mos_file e of None \<Rightarrow> [] | Some bs \<Rightarrow> bs))"
  "flash_events (trace (fst (readMemory lay e s))) = flash_events (trace s)"
  by (simp_all add: readMemory_def Let_def readMemory_loop_result flash_events_printf)

lemma validFirmware_flash:
  "flash_events (trace (fst (validFirmware lay s))) = flash_events (trace s)"
  by (simp add: validFirmware_def Let_def flash_events_printf)

lemma main_file_missing:
  "mos_file e = None \<Longrightarrow> main lay e s = (printf MsgErrorOpening s, Some 4)"
  by (simp add: main_def filesExist_def EXIT_FILENOTFOUND_def)

lemma main_invalid:
  "mos_file e \<noteq> None \<Longrightarrow> \<not> snd (validFirmware lay s)
     \<Longrightarrow> main lay e s = (fst (validFirmware lay s), Some 19)"
  by (auto simp: main_def filesExist_def EXIT_INVALIDPARAMETER_def Let_def split_beta)

lemma main_read_error:
  assumes "mos_file e = Some bs" "snd (validFirmware lay s)" "(of_nat (length bs) :: uint24) = 0"
  shows "main lay e s
           = (printf MsgReadError
                ((fst (readMemory lay e (print_version (putch 12 (fst (validFirmware lay s))))))
                   \<lparr>filesize := 0\<rparr>), Some 0)"
proof -
  have "snd (readMemory lay e s') = 0" for s'
    using assms(1,3) by (simp add: readMemory_result)
  with assms(1,2) show ?thesis
    by (simp add: main_def filesExist_def Let_def split_beta)
qed

lemma main_reaches_flash:
  assumes "mos_file e = Some bs" "snd (validFirmware lay s)" "(of_nat (length bs) :: uint24) \<noteq> 0"
    and "getResponse_loop (keys e) = Some 0x79"
  shows "main lay e s = main_flash lay e (state_before_flash lay e s)"
proof -
  have "snd (readMemory lay e s') \<noteq> 0" for s'
    using assms(1,3) by (simp add: readMemory_result)
  moreover have "snd (getResponse e s') = Some True" for s'
    using assms(4) by (simp add: getResponse_def Let_def)
  ultimately show ?thesis
    using assms(1,2)
    by (simp add: main_def filesExist_def state_before_flash_def Let_def split_beta)
qed

lemma containsMosHeader_bytes:
  "containsMosHeader m p
     = (map (\<lambda>n. m (p + of_nat n)) [0, 1, 2, 3, 4] = [0xF3, 0xED, 0x7D, 0x5B, 0xC3])"
proof -
  have five: "[0..<5] = [0, 1, 2, 3, 4]"
    by (simp add: upt_rec numeral_eq_Suc)
  show ?thesis
    unfolding containsMosHeader_def MOS_MAGICLENGTH_def five
    by (simp add: mos_magicnumbers_def)
qed

lemma validFirmware_initial:
  "snd (validFirmware lay (initial_state m)) = containsMosHeader m (BUFFER1 lay)"
  by (simp add: validFirmware_def initial_state_def Let_def)

lemma header_ram_valid: "snd (validFirmware example_layout (initial_state header_ram))"
  by (simp add: validFirmware_initial containsMosHeader_bytes example_layout_def header_ram_def)

lemma zero_ram_invalid: "\<not> snd (validFirmware example_layout (initial_state (\<lambda>a. 0)))"
  by (simp add: validFirmware_initial containsMosHeader_bytes)

lemma flash_events_before_flash:
  "flash_events (trace (state_before_flash lay e s)) = flash_events (trace s)"
proof -
  have crc: "flash_events (trace (calculateCRC32 lay s')) = flash_events (trace s')" for s'
    by (simp add: calculateCRC32_def Let_def crc32_def crc32_initialize_def printf_def emit_def
          flash_events_def flash_event_def)
  have resp: "flash_events (trace (fst (getResponse e s'))) = flash_events (trace s')" for s'
    by (simp add: getResponse_def Let_def flash_events_printf split: option.splits)
  have files: "flash_events (trace (fst (filesExist e s'))) = flash_events (trace s')" for s'
    by (simp add: filesExist_def flash_events_printf split: option.splits)
  show ?thesis
    by (simp add: state_before_flash_def Let_def resp showCRC32_def flash_events_printf crc
          readMemory_result print_version_def flash_events_putch validFirmware_flash files)
qed

lemma example_before_flash:
  "filesize (state_before_flash example_layout (example_env rd) (initial_state header_ram)) = 1"
  "moscrc (state_before_flash example_layout (example_env rd) (initial_state header_ram)) = 0xD202EF8D"
  "mem (state_before_flash example_layout (example_env rd) (initial_state header_ram))
     = header_ram(0x50000 := 0)"
proof -
  let ?s2 = "fst (validFirmware example_layout (fst (filesExist (example_env rd) (initial_state header_ram))))"
  have s2: "?s2 = initial_state header_ram"
    using header_ram_valid
    by (simp add: filesExist_def example_env_def validFirmware_def Let_def initial_state_def
          example_layout_def split: if_splits)
  let ?s4 = "print_version (putch 12 ?s2)"
  have rm: "readMemory example_layout (example_env rd) ?s4
              = (?s4\<lparr>mem := header_ram(0x50000 := 0), trace := trace ?s4 @ [Printf MsgReading]\<rparr>, 1)"
    unfolding s2
    by (simp add: readMemory_def example_env_def example_layout_def Let_def printf_def emit_def
          initial_state_def print_version_def putch_def)
  show "filesize (state_before_flash example_layout (example_env rd) (initial_state header_ram)) = 1"
    unfolding state_before_flash_def Let_def rm
    by (simp add: getResponse_def showCRC32_def calculateCRC32_def crc32_def crc32_initialize_def
          printf_def emit_def Let_def split: option.splits)
  show "moscrc (state_before_flash example_layout (example_env rd) (initial_state header_ram)) = 0xD202EF8D"
    unfolding state_before_flash_def Let_def rm
    by (simp add: getResponse_def showCRC32_def calculateCRC32_def crc32_def crc32_initialize_def
          crc32_finalize_def printf_def emit_def Let_def example_layout_def crc32_eval
          split: option.splits)
  show "mem (state_before_flash example_layout (example_env rd) (initial_state header_ram))
     = header_ram(0x50000 := 0)"
    unfolding state_before_flash_def Let_def rm
    by (simp add: getResponse_def showCRC32_def calculateCRC32_def crc32_def crc32_initialize_def
          printf_def emit_def Let_def split: option.splits)
qed

lemma validFirmware_result:
  "snd (validFirmware lay s) = (containsMosHeader (mem s) (BUFFER1 lay) \<and> filesize s \<le> FLASHSIZE lay)"
  by (auto simp: validFirmware_def Let_def printf_def emit_def)

lemma main_flash_success:
  assumes "snd (update_mos lay e s) = Some True"
  shows "main_flash lay e s
           = ((fst (update_mos lay e s))
                \<lparr>trace := trace (fst (update_mos lay e s))
                           @ [Printf MsgDone, Printf MsgUpdateVDP, Printf MsgOkToReset]\<rparr>, None)"
  using assms
  by (cases "update_mos lay e s")
     (simp add: main_flash_def Let_def printf_def emit_def forever_None)

lemma example_keys: "getResponse_loop (keys (example_env rd)) = Some 0x79"
  by (simp add: example_env_def tolower_def)

lemma example_update_succeeds:
  "snd (update_mos example_layout (example_env (\<lambda>a p. 0))
          (state_before_flash example_layout (example_env (\<lambda>a p. 0)) (initial_state header_ram)))
     = Some True"
  "trace (fst (update_mos example_layout (example_env (\<lambda>a p. 0))
          (state_before_flash example_layout (example_env (\<lambda>a p. 0)) (initial_state header_ram))))
     = trace (state_before_flash example_layout (example_env (\<lambda>a p. 0)) (initial_state header_ram))
       @ [Printf MsgProgramming, Di]
       @ cycles example_layout (example_env (\<lambda>a p. 0))
           (state_before_flash example_layout (example_env (\<lambda>a p. 0)) (initial_state header_ram)) 0 1
       @ [Printf MsgNewline]"
proof -
  let ?e = "example_env (\<lambda>a p. 0)"
  let ?s = "state_before_flash example_layout ?e (initial_state header_ram)"
  have "verified example_layout ?e (filesize ?s) (moscrc ?s) (int (1 - 1))"
    unfolding verified_def flash_crc_def example_before_flash
    by (simp add: example_env_def crc32_eval)
  from update_mos_succeeds [OF no_stall_example _ _ _ this]
  show "snd (update_mos example_layout ?e ?s) = Some True"
    and "trace (fst (update_mos example_layout ?e ?s))
           = trace ?s @ [Printf MsgProgramming, Di] @ cycles example_layout ?e ?s 0 1
             @ [Printf MsgNewline]"
    by simp_all
qed

section \<open>Claims\<close>

text \<open>
  C1. The code does not do this. \<^verbatim>\<open>main\<close> calls \<^verbatim>\<open>validFirmware\<close> before
  \<^verbatim>\<open>readMemory\<close>: the signature check reads what the buffer held before the image
  was loaded, and the size check reads \<^verbatim>\<open>filesize\<close> while it is still 0, so from the
  initial state the result of \<^verbatim>\<open>validFirmware\<close> is the signature check of the old
  buffer contents alone. On the run below the file is the single byte \<^verbatim>\<open>00\<close>, the
  buffer held the signature before, and the user answers \<^verbatim>\<open>y\<close>: the image without
  a signature is loaded and its page is copied into the flash.
\<close>

theorem validation_precedes_loading:
  "snd (validFirmware lay (initial_state m)) = containsMosHeader m (BUFFER1 lay)
   \<and> mos_file (example_env (\<lambda>a p. 0)) = Some [0]
   \<and> snd (main example_layout (example_env (\<lambda>a p. 0)) (initial_state header_ram)) = None
   \<and> \<not> containsMosHeader
          (mem (fst (main example_layout (example_env (\<lambda>a p. 0)) (initial_state header_ram))))
          (BUFFER1 example_layout)
   \<and> FastMemcpy 0 0x50000 1
       \<in> set (trace (fst (main example_layout (example_env (\<lambda>a p. 0)) (initial_state header_ram))))"
proof -
  let ?e = "example_env (\<lambda>a p. 0)"
  let ?s = "state_before_flash example_layout ?e (initial_state header_ram)"
  have image: "mos_file ?e = Some [0]" "(of_nat (length [0 :: byte]) :: uint24) \<noteq> 0"
    by (simp_all add: example_env_def)
  have run: "main example_layout ?e (initial_state header_ram)
          = ((fst (update_mos example_layout ?e ?s))
                \<lparr>trace := trace (fst (update_mos example_layout ?e ?s))
                           @ [Printf MsgDone, Printf MsgUpdateVDP, Printf MsgOkToReset]\<rparr>, None)"
    using main_reaches_flash [OF image(1) header_ram_valid image(2) example_keys]
      main_flash_success [OF example_update_succeeds(1)]
    by simp
  have "mem (fst (update_mos example_layout ?e ?s)) = header_ram(0x50000 := 0)"
    using update_mos_any [of example_layout ?e ?s] by (auto simp: example_before_flash)
  then have "mem (fst (main example_layout ?e (initial_state header_ram)))
               = header_ram(0x50000 := 0)"
    by (simp add: run)
  then have bad: "\<not> containsMosHeader (mem (fst (main example_layout ?e (initial_state header_ram))))
                      (BUFFER1 example_layout)"
    by (simp add: containsMosHeader_bytes example_layout_def)
  have "program_events example_layout 1 = [Printf (MsgWriting 1 1), FastMemcpy 0 0x50000 1]"
    by (simp add: program_events_def determine_pages_def page_events_def example_layout_def Let_def)
  then have "FastMemcpy 0 0x50000 1 \<in> set (cycles example_layout ?e ?s 0 1)"
    by (simp add: cycles_def cycle_events_def example_before_flash)
  then have copy: "FastMemcpy 0 0x50000 1
       \<in> set (trace (fst (main example_layout ?e (initial_state header_ram))))"
    by (simp add: run example_update_succeeds(2))
  from validFirmware_initial [of lay m] image(1) run bad copy show ?thesis
    by simp
qed

text \<open>
  C2, as stated, fails: with an empty file (and RAM that passes the checks)
  \<^verbatim>\<open>main\<close> prints the read error and returns 0, not a non-zero status.
\<close>

theorem read_error_exit_counterexample:
  "mos_file empty_file_env = Some []
   \<and> snd (main example_layout empty_file_env (initial_state header_ram)) = Some 0
   \<and> last (trace (fst (main example_layout empty_file_env (initial_state header_ram))))
       = Printf MsgReadError"
proof -
  have "mos_file empty_file_env = Some []" "(of_nat (length ([] :: byte list)) :: uint24) = 0"
    by (simp_all add: empty_file_env_def)
  from main_read_error [OF this(1) header_ram_valid this(2)] this(1) show ?thesis
    by (simp add: printf_def emit_def)
qed

text \<open>
  C2, amended. A run in which the file cannot be opened returns 4; a run in which the
  file can be opened and \<^verbatim>\<open>validFirmware\<close> fails (no signature at the buffer, or
  \<^verbatim>\<open>filesize\<close> above the flash capacity) returns 19; a run that passes both and reads
  zero bytes returns 0. In all three no flash event has occurred: the flash events of the
  trace are those from before the run.
\<close>

theorem fail_fast_exits:
  "(mos_file e = None
      \<longrightarrow> snd (main lay e s) = Some 4
          \<and> flash_events (trace (fst (main lay e s))) = flash_events (trace s))
   \<and> (mos_file e \<noteq> None
        \<and> \<not> (containsMosHeader (mem s) (BUFFER1 lay) \<and> filesize s \<le> FLASHSIZE lay)
      \<longrightarrow> snd (main lay e s) = Some 19
          \<and> flash_events (trace (fst (main lay e s))) = flash_events (trace s))
   \<and> (mos_file e = Some bs
        \<and> containsMosHeader (mem s) (BUFFER1 lay) \<and> filesize s \<le> FLASHSIZE lay
        \<and> (of_nat (length bs) :: uint24) = 0
      \<longrightarrow> snd (main lay e s) = Some 0
          \<and> flash_events (trace (fst (main lay e s))) = flash_events (trace s))"
proof -
  have missing: "snd (main lay e s) = Some 4
          \<and> flash_events (trace (fst (main lay e s))) = flash_events (trace s)"
    if "mos_file e = None"
    using main_file_missing [OF that, of lay s] by (simp add: flash_events_printf)
  have invalid: "snd (main lay e s) = Some 19
          \<and> flash_events (trace (fst (main lay e s))) = flash_events (trace s)"
    if "mos_file e \<noteq> None"
      "\<not> (containsMosHeader (mem s) (BUFFER1 lay) \<and> filesize s \<le> FLASHSIZE lay)"
  proof -
    have "\<not> snd (validFirmware lay s)"
      unfolding validFirmware_result by (rule that(2))
    from main_invalid [OF that(1) this] show ?thesis
      by (simp add: validFirmware_flash)
  qed
  have empty: "snd (main lay e s) = Some 0
          \<and> flash_events (trace (fst (main lay e s))) = flash_events (trace s)"
    if "mos_file e = Some bs" "containsMosHeader (mem s) (BUFFER1 lay)"
      "filesize s \<le> FLASHSIZE lay" "(of_nat (length bs) :: uint24) = 0"
  proof -
    have "snd (validFirmware lay s)"
      unfolding validFirmware_result using that(2,3) by simp
    from main_read_error [OF that(1) this that(4)] show ?thesis
      by (simp add: flash_events_def printf_def emit_def flash_event_def
            readMemory_result [unfolded flash_events_def] print_version_def putch_def
            validFirmware_flash [unfolded flash_events_def])
  qed
  from missing invalid empty show ?thesis
    by blast
qed

theorem fail_fast_exits_witness:
  "mos_file no_file_env = None
   \<and> snd (main example_layout no_file_env (initial_state header_ram)) = Some 4
   \<and> flash_events (trace (fst (main example_layout no_file_env (initial_state header_ram)))) = []
   \<and> \<not> containsMosHeader (mem (initial_state (\<lambda>a. 0))) (BUFFER1 example_layout)
   \<and> snd (main example_layout (example_env (\<lambda>a p. 0)) (initial_state (\<lambda>a. 0))) = Some 19
   \<and> flash_events (trace (fst (main example_layout (example_env (\<lambda>a p. 0))
                                   (initial_state (\<lambda>a. 0))))) = []
   \<and> containsMosHeader (mem (initial_state header_ram)) (BUFFER1 example_layout)
   \<and> filesize (initial_state header_ram) \<le> FLASHSIZE example_layout
   \<and> snd (main example_layout empty_file_env (initial_state header_ram)) = Some 0
   \<and> flash_events (trace (fst (main example_layout empty_file_env (initial_state header_ram))))
       = []"
proof -
  have none: "mos_file no_file_env = None"
    and some: "mos_file (example_env (\<lambda>a p. 0)) \<noteq> None"
    and empty: "mos_file empty_file_env = Some []" "(of_nat (length ([] :: byte list)) :: uint24) = 0"
    by (simp_all add: no_file_env_def example_env_def empty_file_env_def)
  have bad: "\<not> containsMosHeader (mem (initial_state (\<lambda>a. 0))) (BUFFER1 example_layout)"
    by (simp add: containsMosHeader_bytes initial_state_def)
  have good: "containsMosHeader (mem (initial_state header_ram)) (BUFFER1 example_layout)"
    "filesize (initial_state header_ram) \<le> FLASHSIZE example_layout"
    by (simp_all add: containsMosHeader_bytes initial_state_def header_ram_def example_layout_def)
  have t0: "flash_events (trace (initial_state m)) = []" for m
    by (simp add: initial_state_def flash_events_def)
  from fail_fast_exits [where e = no_file_env and lay = example_layout
                          and s = "initial_state header_ram"] none
  have "snd (main example_layout no_file_env (initial_state header_ram)) = Some 4"
    "flash_events (trace (fst (main example_layout no_file_env (initial_state header_ram)))) = []"
    by (simp_all add: t0)
  moreover
  from fail_fast_exits [where e = "example_env (\<lambda>a p. 0)" and lay = example_layout
                          and s = "initial_state (\<lambda>a. 0)"] some bad
  have "snd (main example_layout (example_env (\<lambda>a p. 0)) (initial_state (\<lambda>a. 0))) = Some 19"
    "flash_events (trace (fst (main example_layout (example_env (\<lambda>a p. 0))
                                   (initial_state (\<lambda>a. 0))))) = []"
    by (simp_all add: t0)
  moreover
  from fail_fast_exits [where e = empty_file_env and lay = example_layout
                          and s = "initial_state header_ram" and bs = "[]"] empty good
  have "snd (main example_layout empty_file_env (initial_state header_ram)) = Some 0"
    "flash_events (trace (fst (main example_layout empty_file_env (initial_state header_ram))))
       = []"
    by (simp_all add: t0)
  ultimately show ?thesis
    using none bad good by simp
qed

text \<open>
  C3, as stated, fails: interrupts are enabled before the call and still disabled after
  it, when \<^verbatim>\<open>update_mos\<close> returns true and when it returns false after three
  attempts.
\<close>

theorem interrupts_reenabled_counterexample:
  "interrupts_enabled example_state
   \<and> snd (update_mos example_layout (example_env (\<lambda>a p. 0)) example_state) = Some True
   \<and> \<not> interrupts_enabled (fst (update_mos example_layout (example_env (\<lambda>a p. 0)) example_state))
   \<and> snd (update_mos example_layout (example_env (\<lambda>a p. 0xFF)) example_state) = Some False
   \<and> \<not> interrupts_enabled
         (fst (update_mos example_layout (example_env (\<lambda>a p. 0xFF)) example_state))"
proof -
  let ?e = "example_env (\<lambda>a p. 0)" and ?f = "example_env (\<lambda>a p. 0xFF)"
  have "verified example_layout ?e (filesize example_state) (moscrc example_state) (int (1 - 1))"
    by (simp add: verified_example crc32_of_examples)
  from update_mos_succeeds(1) [OF no_stall_example _ _ _ this]
  have "snd (update_mos example_layout ?e example_state) = Some True"
    by simp
  moreover
  have "\<forall>i<3. \<not> verified example_layout ?f (filesize example_state) (moscrc example_state) (int i)"
    by (simp add: verified_example crc32_of_examples)
  from update_mos_exhausted(1) [OF no_stall_example this]
  have "snd (update_mos example_layout ?f example_state) = Some False" .
  moreover have "\<not> interrupts_enabled (fst (update_mos example_layout ?e example_state))"
    "\<not> interrupts_enabled (fst (update_mos example_layout ?f example_state))"
    using update_mos_any [of example_layout ?e example_state]
      update_mos_any [of example_layout ?f example_state] by blast+
  ultimately show ?thesis
    by (simp add: example_state_def)
qed

text \<open>
  C3, amended. \<^verbatim>\<open>update_mos\<close> disables interrupts first, before the first attempt
  and so before the first erase, and never enables them again: no attempt changes the
  interrupt mask, and the mask is disabled in the state that \<^verbatim>\<open>update_mos\<close> ends
  in, whether it returns true, returns false after three attempts, or stalls in an erase.
  Everything the call does apart from its first message comes after the one \<^verbatim>\<open>di\<close>.
\<close>

theorem interrupts_stay_disabled:
  "\<not> interrupts_enabled (fst (update_mos lay e s))
   \<and> (\<exists>t. trace (fst (update_mos lay e s)) = trace s @ [Printf MsgProgramming, Di] @ t
          \<and> Di \<notin> set t)
   \<and> interrupts_enabled (fst (update_attempt lay e a s)) = interrupts_enabled s"
proof -
  from update_mos_any [of lay e s] obtain t where t:
    "trace (fst (update_mos lay e s)) = trace s @ [Printf MsgProgramming, Di] @ t"
    "list_all loop_event t" "\<not> interrupts_enabled (fst (update_mos lay e s))"
    by blast
  from t(2) have "Di \<notin> set t"
    by (auto simp: list_all_iff loop_event_def)
  moreover have "interrupts_enabled (fst (update_attempt lay e a s)) = interrupts_enabled s"
    using update_attempt_any [of lay e a s] by (auto simp: unchanged_def)
  ultimately show ?thesis
    using t by blast
qed

text \<open>
  C4. Whatever the device does, \<^verbatim>\<open>update_mos\<close> starts at most three cycles. On a
  device whose erases complete and on which the read-back first matches on attempt
  \<open>k\<close> (1, 2 or 3), it returns true after exactly \<open>k\<close> cycles; when none of three
  attempts matches, it returns false after exactly three. Each of these cycles is a whole
  one (\<open>cycle_events\<close>): the erase of every page of the flash, the copy of every page of
  the image, the lock and the verification.
\<close>

theorem retry_cycles:
  "cycles_started (drop (length (trace s)) (trace (fst (update_mos lay e s)))) \<le> 3
   \<and> (no_stall lay e \<and> 1 \<le> k \<and> k \<le> 3
        \<and> (\<forall>i. Suc i < k \<longrightarrow> \<not> verified lay e (filesize s) (moscrc s) (int i))
        \<and> verified lay e (filesize s) (moscrc s) (int (k - 1))
      \<longrightarrow> snd (update_mos lay e s) = Some True
          \<and> trace (fst (update_mos lay e s))
              = trace s @ [Printf MsgProgramming, Di] @ cycles lay e s 0 k @ [Printf MsgNewline]
          \<and> cycles_started (drop (length (trace s)) (trace (fst (update_mos lay e s)))) = k)
   \<and> (no_stall lay e \<and> (\<forall>i<3. \<not> verified lay e (filesize s) (moscrc s) (int i))
      \<longrightarrow> snd (update_mos lay e s) = Some False
          \<and> trace (fst (update_mos lay e s))
              = trace s @ [Printf MsgProgramming, Di] @ cycles lay e s 0 3 @ [Printf MsgNewline]
          \<and> cycles_started (drop (length (trace s)) (trace (fst (update_mos lay e s)))) = 3)"
proof -
  have "cycles_started [Printf MsgProgramming, Di] = 0" "cycles_started [Printf MsgNewline] = 0"
    by (simp_all add: cycles_started_def)
  then have started:
    "cycles_started ([Printf MsgProgramming, Di] @ cycles lay e s 0 n @ [Printf MsgNewline]) = n"
    for n
    by (simp only: cycles_started_append cycles_started_cycles)
  from update_mos_any [of lay e s] obtain t where
    "trace (fst (update_mos lay e s)) = trace s @ [Printf MsgProgramming, Di] @ t"
    "cycles_started t \<le> 3"
    by blast
  then have "cycles_started (drop (length (trace s)) (trace (fst (update_mos lay e s)))) \<le> 3"
    by (simp add: cycles_started_def)
  moreover have "snd (update_mos lay e s) = Some True
          \<and> trace (fst (update_mos lay e s))
              = trace s @ [Printf MsgProgramming, Di] @ cycles lay e s 0 k @ [Printf MsgNewline]
          \<and> cycles_started (drop (length (trace s)) (trace (fst (update_mos lay e s)))) = k"
    if "no_stall lay e" "1 \<le> k" "k \<le> 3"
      "\<forall>i. Suc i < k \<longrightarrow> \<not> verified lay e (filesize s) (moscrc s) (int i)"
      "verified lay e (filesize s) (moscrc s) (int (k - 1))"
    using update_mos_succeeds [OF that] started [of k] by simp
  moreover have "snd (update_mos lay e s) = Some False
          \<and> trace (fst (update_mos lay e s))
              = trace s @ [Printf MsgProgramming, Di] @ cycles lay e s 0 3 @ [Printf MsgNewline]
          \<and> cycles_started (drop (length (trace s)) (trace (fst (update_mos lay e s)))) = 3"
    if "no_stall lay e" "\<forall>i<3. \<not> verified lay e (filesize s) (moscrc s) (int i)"
    using update_mos_exhausted [OF that] started [of 3] by simp
  ultimately show ?thesis
    by blast
qed

theorem retry_cycles_witness:
  "no_stall example_layout (example_env (\<lambda>a p. if a = 0 then 0xFF else 0))
   \<and> \<not> verified example_layout (example_env (\<lambda>a p. if a = 0 then 0xFF else 0))
          (filesize example_state) (moscrc example_state) 0
   \<and> verified example_layout (example_env (\<lambda>a p. if a = 0 then 0xFF else 0))
          (filesize example_state) (moscrc example_state) 1
   \<and> snd (update_mos example_layout (example_env (\<lambda>a p. if a = 0 then 0xFF else 0)) example_state)
       = Some True
   \<and> cycles_started (trace (fst (update_mos example_layout
                                    (example_env (\<lambda>a p. if a = 0 then 0xFF else 0)) example_state)))
       = 2
   \<and> snd (update_mos example_layout (example_env (\<lambda>a p. 0xFF)) example_state) = Some False
   \<and> cycles_started (trace (fst (update_mos example_layout (example_env (\<lambda>a p. 0xFF))
                                    example_state))) = 3"
proof -
  let ?e = "example_env (\<lambda>a p. if a = 0 then 0xFF else 0)"
  let ?f = "example_env (\<lambda>a p. 0xFF)"
  have v0: "\<not> verified example_layout ?e (filesize example_state) (moscrc example_state) 0"
    and v1: "verified example_layout ?e (filesize example_state) (moscrc example_state) 1"
    and vf: "\<not> verified example_layout ?f (filesize example_state) (moscrc example_state) a" for a
    by (simp_all add: verified_example crc32_of_examples)
  have first: "\<forall>i. Suc i < 2 \<longrightarrow>
      \<not> verified example_layout ?e (filesize example_state) (moscrc example_state) (int i)"
    using v0 by (auto simp: less_Suc_eq)
  have t0: "trace example_state = []"
    by (simp add: example_state_def)
  have one: "int (2 - 1) = 1"
    by simp
  have k: "1 \<le> (2 :: nat)" "(2 :: nat) \<le> 3"
    by simp_all
  have "snd (update_mos example_layout ?e example_state) = Some True
        \<and> cycles_started (drop (length (trace example_state))
             (trace (fst (update_mos example_layout ?e example_state)))) = 2"
    using retry_cycles [of example_state example_layout ?e 2] no_stall_example first v1 k
    unfolding one by blast
  moreover have "snd (update_mos example_layout ?f example_state) = Some False
        \<and> cycles_started (drop (length (trace example_state))
             (trace (fst (update_mos example_layout ?f example_state)))) = 3"
    using retry_cycles [of example_state example_layout ?f 1] no_stall_example vf
    by blast
  ultimately show ?thesis
    using no_stall_example v0 v1 by (simp add: t0)
qed

text \<open>
  C5. With a page size that is not zero, the programming phase of an attempt computes
  \<open>pagemax\<close> as the ceiling of \<^verbatim>\<open>filesize / PAGESIZE\<close> and \<open>lastpagebytes\<close> as
  \<^verbatim>\<open>filesize mod PAGESIZE\<close>, or \<^verbatim>\<open>PAGESIZE\<close> when that is zero. The write loop
  then copies page \<open>0\<close>, page \<open>1\<close>, ... in this order, page \<open>i\<close> from
  \<^verbatim>\<open>BUFFER1 + i * PAGESIZE\<close> to \<^verbatim>\<open>FLASHSTART + i * PAGESIZE\<close>, every page with
  \<^verbatim>\<open>PAGESIZE\<close> bytes except the last one with \<open>lastpagebytes\<close>, and the lengths of
  the copies add up to \<^verbatim>\<open>filesize\<close>. This holds for every file size, so also for
  those between 1 and the flash capacity.
\<close>

theorem programming_pages:
  assumes "PAGESIZE lay \<noteq> 0"
  shows "(let (pagemax, lastpagebytes) = determine_pages lay fs;
              s' = write_pages lay pagemax lastpagebytes 0 (FLASHSTART lay) (BUFFER1 lay) s
          in unat pagemax = (unat fs + unat (PAGESIZE lay) - 1) div unat (PAGESIZE lay)
           \<and> unat lastpagebytes = (if unat fs mod unat (PAGESIZE lay) = 0 then unat (PAGESIZE lay)
                                    else unat fs mod unat (PAGESIZE lay))
           \<and> s' = s\<lparr>trace := trace s @ concat (map (page_events lay pagemax lastpagebytes)
                                                   [0..<unat pagemax])\<rparr>
           \<and> bytes_written (drop (length (trace s)) (trace s')) = unat fs)"
proof -
  obtain pagemax lastpagebytes where dp: "determine_pages lay fs = (pagemax, lastpagebytes)"
    by (cases "determine_pages lay fs")
  from determine_pages_unat [OF assms, of fs] bytes_written_program [OF assms, of fs]
  show ?thesis
    by (simp add: dp write_pages_trace0)
qed

theorem programming_pages_witness:
  "PAGESIZE example_layout \<noteq> 0
   \<and> determine_pages example_layout 2500 = (3, 452)
   \<and> trace (write_pages example_layout 3 452 0 0 0x50000 example_state)
       = [Printf (MsgWriting 1 3), FastMemcpy 0 0x50000 1024,
          Printf (MsgWriting 2 3), FastMemcpy 1024 0x50400 1024,
          Printf (MsgWriting 3 3), FastMemcpy 2048 0x50800 452]
   \<and> bytes_written [Printf (MsgWriting 1 3), FastMemcpy 0 0x50000 1024,
          Printf (MsgWriting 2 3), FastMemcpy 1024 0x50400 1024,
          Printf (MsgWriting 3 3), FastMemcpy 2048 0x50800 452] = 2500"
proof -
  have nz: "PAGESIZE example_layout \<noteq> 0"
    by (simp add: example_layout_def)
  have dp: "determine_pages example_layout 2500 = (3, 452)"
    by (simp add: determine_pages_def example_layout_def Let_def)
  have three: "[0..<3] = [0, 1, 2 :: nat]"
    by (simp add: upt_rec numeral_eq_Suc)
  have "trace (write_pages example_layout 3 452 0 (FLASHSTART example_layout)
                 (BUFFER1 example_layout) example_state)
          = concat (map (page_events example_layout 3 452) [0..<unat (3 :: uint24)])"
    using programming_pages [OF nz, of 2500 example_state]
    by (simp add: dp example_state_def Let_def)
  then have "trace (write_pages example_layout 3 452 0 0 0x50000 example_state)
       = [Printf (MsgWriting 1 3), FastMemcpy 0 0x50000 1024,
          Printf (MsgWriting 2 3), FastMemcpy 1024 0x50400 1024,
          Printf (MsgWriting 3 3), FastMemcpy 2048 0x50800 452]"
    by (simp add: three page_events_def example_layout_def)
  moreover have "bytes_written [Printf (MsgWriting 1 3), FastMemcpy 0 0x50000 1024,
          Printf (MsgWriting 2 3), FastMemcpy 1024 0x50400 1024,
          Printf (MsgWriting 3 3), FastMemcpy 2048 0x50800 452] = 2500"
    by (simp add: bytes_written_def)
  ultimately show ?thesis
    using nz dp by simp
qed

text \<open>
  C6. The checksum engine, with seed \<^verbatim>\<open>0xFFFFFFFF\<close>, the reflected polynomial
  \<^verbatim>\<open>0xEDB88320\<close> and the final XOR with \<^verbatim>\<open>0xFFFFFFFF\<close>, gives the
  reference value \<^verbatim>\<open>0xCBF43926\<close> for the nine ASCII bytes \<^verbatim>\<open>123456789\<close>,
  both as a function of the bytes and through the three entry points
  \<^verbatim>\<open>crc32_initialize\<close>, \<^verbatim>\<open>crc32\<close>, \<^verbatim>\<open>crc32_finalize\<close> from any state.
\<close>

theorem crc32_check_value:
  "crc32_of [0x31, 0x32, 0x33, 0x34, 0x35, 0x36, 0x37, 0x38, 0x39] = 0xCBF43926
   \<and> crc32_finalize
         (crc32 (\<lambda>a. [0x31, 0x32, 0x33, 0x34, 0x35, 0x36, 0x37, 0x38, 0x39] ! unat a) 0 9
            (crc32_initialize s)) = 0xCBF43926"
proof -
  have check: "crc32_of [0x31, 0x32, 0x33, 0x34, 0x35, 0x36, 0x37, 0x38, 0x39] = 0xCBF43926"
    by (simp add: crc32_eval)
  have "[0..<9] = [0, 1, 2, 3, 4, 5, 6, 7, 8 :: nat]"
    by (simp add: upt_rec numeral_eq_Suc)
  moreover have "unat (9 :: uint24) = 9"
    by simp
  ultimately have nine: "[0..<unat (9 :: uint24)] = [0, 1, 2, 3, 4, 5, 6, 7, 8]"
    by (simp only:)
  have "crc32_finalize
          (crc32 (\<lambda>a. [0x31, 0x32, 0x33, 0x34, 0x35, 0x36, 0x37, 0x38, 0x39] ! unat a) 0 9
             (crc32_initialize s))
        = crc32_of [0x31, 0x32, 0x33, 0x34, 0x35, 0x36, 0x37, 0x38, 0x39]"
    unfolding crc32_finalize_def crc32_def crc32_initialize_def emit_def crc32_of_def nine
    by simp
  with check show ?thesis
    by simp
qed

text \<open>
  C7, as stated, fails: on a run with one attempt the only value written to
  \<^verbatim>\<open>FLASH_FDIV\<close> is \<^verbatim>\<open>0x5F\<close>, that is 95, while the ceiling of
  18 MHz times 5.1 microseconds (91.8) is 92.
\<close>

theorem fdiv_18MHz_counterexample:
  "fdiv_writes (trace (fst (update_mos example_layout (example_env (\<lambda>a p. 0)) example_state)))
     = [0x5F]
   \<and> erase_divisor 18000000 5100 = 92
   \<and> unat (0x5F :: byte) \<noteq> erase_divisor 18000000 5100"
proof -
  let ?e = "example_env (\<lambda>a p. 0)"
  have "verified example_layout ?e (filesize example_state) (moscrc example_state) (int (1 - 1))"
    by (simp add: verified_example crc32_of_examples)
  from update_mos_succeeds(2) [OF no_stall_example _ _ _ this]
  have "trace (fst (update_mos example_layout ?e example_state))
          = [Printf MsgProgramming, Di] @ cycles example_layout ?e example_state 0 1
            @ [Printf MsgNewline]"
    by (simp add: example_state_def)
  then have "fdiv_writes (trace (fst (update_mos example_layout ?e example_state))) = [0x5F]"
    by (simp only: fdiv_writes_append fdiv_writes_cycles) (simp add: fdiv_writes_def)
  then show ?thesis
    by (simp add: erase_divisor_def)
qed

text \<open>
  C7, amended. Every cycle that \<^verbatim>\<open>update_mos\<close> starts, and it starts at least one,
  writes \<^verbatim>\<open>FLASH_FDIV\<close> once, and always the constant \<^verbatim>\<open>0x5F\<close>, decimal 95.
  That is the ceiling of the clock frequency times 5.1 microseconds exactly for the clock
  frequencies from 18431373 Hz to 18627450 Hz, among them 18.432 MHz; for 18 MHz the
  ceiling is 92.
\<close>

theorem fdiv_constant:
  "fdiv_writes (drop (length (trace s)) (trace (fst (update_mos lay e s))))
     = replicate (cycles_started (drop (length (trace s)) (trace (fst (update_mos lay e s))))) 0x5F
   \<and> 1 \<le> cycles_started (drop (length (trace s)) (trace (fst (update_mos lay e s))))
   \<and> unat (0x5F :: byte) = 95
   \<and> (erase_divisor clock_hz 5100 = 95) = (18431373 \<le> clock_hz \<and> clock_hz \<le> 18627450)
   \<and> erase_divisor 18000000 5100 = 92"
proof -
  from update_mos_any [of lay e s] obtain t where t:
    "trace (fst (update_mos lay e s)) = trace s @ [Printf MsgProgramming, Di] @ t"
    "1 \<le> cycles_started t"
    "fdiv_writes t = replicate (cycles_started t) 0x5F"
    by blast
  have "drop (length (trace s)) (trace (fst (update_mos lay e s))) = [Printf MsgProgramming, Di] @ t"
    using t(1) by simp
  moreover have "fdiv_writes ([Printf MsgProgramming, Di] @ t) = fdiv_writes t"
    "cycles_started ([Printf MsgProgramming, Di] @ t) = cycles_started t"
    by (simp_all add: fdiv_writes_def cycles_started_def)
  ultimately have run:
    "fdiv_writes (drop (length (trace s)) (trace (fst (update_mos lay e s))))
       = replicate (cycles_started (drop (length (trace s)) (trace (fst (update_mos lay e s))))) 0x5F"
    "1 \<le> cycles_started (drop (length (trace s)) (trace (fst (update_mos lay e s))))"
    using t(2,3) by simp_all
  have "erase_divisor 18000000 5100 = 92"
    by (simp add: erase_divisor_def)
  with run erase_divisor_95 [of clock_hz] show ?thesis
    by simp
qed

text \<open>
  C8. \<^verbatim>\<open>containsMosHeader\<close> is true exactly when the five bytes at
  \<^verbatim>\<open>filestart\<close> are \<^verbatim>\<open>F3 ED 7D 5B C3\<close>, and two memories that agree on
  those five bytes get the same answer: no other byte is looked at.
\<close>

theorem containsMosHeader_first_five:
  "containsMosHeader m filestart
     = (map (\<lambda>n. m (filestart + of_nat n)) [0..<5] = [0xF3, 0xED, 0x7D, 0x5B, 0xC3])
   \<and> ((\<forall>n<5. m (filestart + of_nat n) = m' (filestart + of_nat n))
        \<longrightarrow> containsMosHeader m filestart = containsMosHeader m' filestart)"
proof -
  have five: "[0..<5] = [0, 1, 2, 3, 4]"
    by (simp add: upt_rec numeral_eq_Suc)
  have header: "containsMosHeader m p
                  = (map (\<lambda>n. m (p + of_nat n)) [0..<5] = [0xF3, 0xED, 0x7D, 0x5B, 0xC3])"
    for m :: "uint24 \<Rightarrow> byte" and p
    unfolding five by (simp add: containsMosHeader_def MOS_MAGICLENGTH_def mos_magicnumbers_def five)
  have "containsMosHeader m filestart = containsMosHeader m' filestart"
    if "\<forall>n<5. m (filestart + of_nat n) = m' (filestart + of_nat n)"
  proof -
    have "map (\<lambda>n. m (filestart + of_nat n)) [0..<5] = map (\<lambda>n. m' (filestart + of_nat n)) [0..<5]"
      using that by (intro map_cong) simp_all
    then show ?thesis
      by (simp only: header)
  qed
  with header [of m filestart] show ?thesis
    by blast
qed

theorem containsMosHeader_first_five_witness:
  "containsMosHeader ((\<lambda>a. 0)(0 := 0xF3, 1 := 0xED, 2 := 0x7D, 3 := 0x5B, 4 := 0xC3)) 0
   \<and> containsMosHeader ((\<lambda>a. 0xFF)(0 := 0xF3, 1 := 0xED, 2 := 0x7D, 3 := 0x5B, 4 := 0xC3)) 0
   \<and> \<not> containsMosHeader ((\<lambda>a. 0)(0 := 0xF3, 1 := 0xED, 2 := 0x7D, 3 := 0x5B, 4 := 0xC2)) 0"
proof -
  let ?m = "(\<lambda>a. 0)(0 := 0xF3, 1 := 0xED, 2 := 0x7D, 3 := 0x5B, 4 := 0xC3) :: uint24 \<Rightarrow> byte"
  let ?m' = "(\<lambda>a. 0xFF)(0 := 0xF3, 1 := 0xED, 2 := 0x7D, 3 := 0x5B, 4 := 0xC3) :: uint24 \<Rightarrow> byte"
  let ?m2 = "(\<lambda>a. 0)(0 := 0xF3, 1 := 0xED, 2 := 0x7D, 3 := 0x5B, 4 := 0xC2) :: uint24 \<Rightarrow> byte"
  have five: "[0..<5] = [0, 1, 2, 3, 4]"
    by (simp add: upt_rec numeral_eq_Suc)
  have agree: "\<forall>n<5. ?m (0 + of_nat n) = ?m' (0 + of_nat n)"
  proof (intro allI impI)
    fix n :: nat
    assume "n < 5"
    then have "n \<in> set [0..<5]"
      by simp
    then have "n = 0 \<or> n = 1 \<or> n = 2 \<or> n = 3 \<or> n = 4"
      unfolding five by simp
    then show "?m (0 + of_nat n) = ?m' (0 + of_nat n)"
      by auto
  qed
  note first = containsMosHeader_first_five [of ?m 0 ?m']
  have m: "containsMosHeader ?m 0"
    using first by (simp add: five)
  have "containsMosHeader ?m 0 = containsMosHeader ?m' 0"
    using first agree by blast
  with m have m': "containsMosHeader ?m' 0"
    by simp
  from containsMosHeader_first_five [of ?m2 0 ?m2]
  have "\<not> containsMosHeader ?m2 0"
    by (simp add: five)
  with m m' show ?thesis
    by simp
qed

text \<open>
  C9. When \<^verbatim>\<open>update_mos\<close> returns, with either result, the flash key register
  is locked, and through the whole call every checksum pass over the flash ran after a
  \<^verbatim>\<open>lockFlashKeyRegister\<close> that followed the last enabling of the key, the last
  register write and the last page copy: in every attempt the lock comes after the
  last page and before the verification. The events of the call are those of one to three
  whole cycles, each ending with the lock and then the verification.
\<close>

theorem relocked_before_verify:
  assumes "update_mos lay e s = (s', Some r)"
  shows "key_locked s'
       \<and> locked_for_verify locked (drop (length (trace s)) (trace s'))
       \<and> (\<exists>n. 1 \<le> n \<and> n \<le> 3 \<and>
            trace s' = trace s @ [Printf MsgProgramming, Di] @ cycles lay e s 0 n
                         @ [Printf MsgNewline])"
proof -
  from update_mos_Some [OF assms] obtain n where n:
    "1 \<le> n" "n \<le> 3"
    "trace s' = trace s @ [Printf MsgProgramming, Di] @ cycles lay e s 0 n @ [Printf MsgNewline]"
    "key_locked s'"
    by blast
  from n(1) have "foldl lock_step (locked, True) (cycles lay e s 0 n) = (True, True)"
    by (intro lock_step_cycles) simp
  then have "locked_for_verify locked
               ([Printf MsgProgramming, Di] @ cycles lay e s 0 n @ [Printf MsgNewline])"
    by (simp add: locked_for_verify_def)
  with n show ?thesis
    by auto
qed

theorem relocked_before_verify_witness:
  "snd (update_mos example_layout (example_env (\<lambda>a p. 0)) example_state) = Some True
   \<and> key_locked (fst (update_mos example_layout (example_env (\<lambda>a p. 0)) example_state))
   \<and> locked_for_verify False
        (trace (fst (update_mos example_layout (example_env (\<lambda>a p. 0)) example_state)))"
proof -
  let ?e = "example_env (\<lambda>a p. 0)"
  obtain s' r where res: "update_mos example_layout ?e example_state = (s', r)"
    by (cases "update_mos example_layout ?e example_state")
  have "verified example_layout ?e (filesize example_state) (moscrc example_state) (int (1 - 1))"
    by (simp add: verified_example crc32_of_examples)
  from update_mos_succeeds(1) [OF no_stall_example _ _ _ this] res
  have r: "r = Some True"
    by simp
  from relocked_before_verify [OF res [unfolded r], of False] res r
  show ?thesis
    by (simp add: example_state_def)
qed

text \<open>
  C10. When \<^verbatim>\<open>update_mos\<close> returns true, the rest of \<^verbatim>\<open>main\<close> prints the
  three completion messages and then does not return: its result is \<open>None\<close>, the value of
  the loop \<^verbatim>\<open>while(1);\<close>. So a run of \<^verbatim>\<open>main\<close> that passes the checks, reads a
  file that is not empty and gets the answer \<^verbatim>\<open>y\<close> never returns when
  \<^verbatim>\<open>update_mos\<close> returns true, and its last three events are the completion messages.
\<close>

theorem main_success_never_returns:
  "(snd (update_mos lay e s) = Some True
      \<longrightarrow> main_flash lay e s
            = ((fst (update_mos lay e s))
                 \<lparr>trace := trace (fst (update_mos lay e s))
                            @ [Printf MsgDone, Printf MsgUpdateVDP, Printf MsgOkToReset]\<rparr>, None))
   \<and> (mos_file e = Some bs \<and> snd (validFirmware lay s) \<and> (of_nat (length bs) :: uint24) \<noteq> 0
        \<and> getResponse_loop (keys e) = Some 0x79
        \<and> snd (update_mos lay e (state_before_flash lay e s)) = Some True
      \<longrightarrow> snd (main lay e s) = None
          \<and> trace (fst (main lay e s))
              = trace (fst (update_mos lay e (state_before_flash lay e s)))
                @ [Printf MsgDone, Printf MsgUpdateVDP, Printf MsgOkToReset])"
proof -
  have "snd (main lay e s) = None
          \<and> trace (fst (main lay e s))
              = trace (fst (update_mos lay e (state_before_flash lay e s)))
                @ [Printf MsgDone, Printf MsgUpdateVDP, Printf MsgOkToReset]"
    if "mos_file e = Some bs" "snd (validFirmware lay s)" "(of_nat (length bs) :: uint24) \<noteq> 0"
      "getResponse_loop (keys e) = Some 0x79"
      "snd (update_mos lay e (state_before_flash lay e s)) = Some True"
    using main_reaches_flash [OF that(1-4)] main_flash_success [OF that(5)] by simp
  with main_flash_success [of lay e s] show ?thesis
    by blast
qed

theorem main_success_never_returns_witness:
  "mos_file (example_env (\<lambda>a p. 0)) = Some [0]
   \<and> snd (validFirmware example_layout (initial_state header_ram))
   \<and> getResponse_loop (keys (example_env (\<lambda>a p. 0))) = Some 0x79
   \<and> snd (update_mos example_layout (example_env (\<lambda>a p. 0))
          (state_before_flash example_layout (example_env (\<lambda>a p. 0)) (initial_state header_ram)))
       = Some True
   \<and> snd (main example_layout (example_env (\<lambda>a p. 0)) (initial_state header_ram)) = None
   \<and> trace (fst (main example_layout (example_env (\<lambda>a p. 0)) (initial_state header_ram)))
       = trace (fst (update_mos example_layout (example_env (\<lambda>a p. 0))
            (state_before_flash example_layout (example_env (\<lambda>a p. 0)) (initial_state header_ram))))
         @ [Printf MsgDone, Printf MsgUpdateVDP, Printf MsgOkToReset]"
proof -
  let ?e = "example_env (\<lambda>a p. 0)"
  have image: "mos_file ?e = Some [0]" "(of_nat (length [0 :: byte]) :: uint24) \<noteq> 0"
    by (simp_all add: example_env_def)
  from main_success_never_returns
         [where lay = example_layout and e = ?e and s = "initial_state header_ram" and bs = "[0]"]
    image header_ram_valid example_keys [of "\<lambda>a p. 0"] example_update_succeeds(1)
  show ?thesis
    by blast
qed

end
